theory Spec2Isabelle
  imports Main "HOL-Library.Product_Lexorder" "HOL-Library.Multiset"
begin

section \<open>Data model\<close>

text \<open>
  A shallow embedding of \<^verbatim>\<open>canvas_assignments.py\<close>. Python strings are modelled as
  \<^typ>\<open>string\<close> (sequences of 8-bit characters, code points below 256). A decoded JSON
  value is a \<open>json\<close>; JSON numbers are modelled as integers, and an object as the
  association list of its keys (looked up with \<^const>\<open>map_of\<close>).
\<close>

datatype json =
    JNull
  | JBool bool
  | JInt int
  | JStr string
  | JList "json list"
  | JObj "(string \<times> json) list"

text \<open>The exceptions the program can raise (\<open>OverflowError\<close> and \<open>OSError\<close> come from
  \<^verbatim>\<open>time.sleep\<close>); \<open>HTTPError\<close> carries the status code of its response,
  \<open>TransportError\<close> stands for whatever \<^verbatim>\<open>session.get\<close> itself raises (connection failure, timeout).\<close>

datatype error =
    HTTPError int
  | ValueError
  | KeyError
  | TypeError
  | AttributeError
  | JSONDecodeError
  | OverflowError
  | OSError
  | TransportError

type_synonym params = "(string \<times> string) list"

type_synonym request = "string \<times> params option"

text \<open>A response: status code, header lookup (\<^verbatim>\<open>resp.headers.get\<close>), and the decoded body
  (\<open>None\<close> when \<^verbatim>\<open>resp.json()\<close> raises).\<close>

record response =
  status_code :: int
  headers :: "string \<Rightarrow> string option"
  body :: "json option"

type_synonym reply = "error + response"

text \<open>
  The world outside the program: the outcomes of the calls of \<^verbatim>\<open>session.get\<close> still to come,
  in the order of the calls (a scripted server), the requests issued so far, the
  durations slept by \<^verbatim>\<open>time.sleep\<close> so far, and the longest duration, in seconds, that the
  operating system accepts for the sleep number \<open>k\<close> of the run (it depends on the
  platform and on its clock: where the deadline of a sleep is an absolute time, it is
  about 9223372036 less the reading of the monotonic clock). A run that needs more
  replies than the script holds has not returned: its value is \<open>None\<close>.
\<close>

record world =
  script :: "reply list"
  requests :: "request list"
  sleeps :: "int list"
  os_limit :: "nat \<Rightarrow> int"

type_synonym 'a run = "((error + 'a) \<times> world) option"

section \<open>Strings\<close>

text \<open>Whitespace as \<^verbatim>\<open>str.isspace\<close>, \<^verbatim>\<open>str.strip\<close> and the pattern \<^verbatim>\<open>\s\<close> see it, for code
  points below 256.\<close>

definition is_space :: "char \<Rightarrow> bool" where
  "is_space c = (of_char c \<in> {9, 10, 11, 12, 13, 28, 29, 30, 31, 32, 133, 160 :: nat})"

definition is_digit :: "char \<Rightarrow> bool" where
  "is_digit c = (c \<in> set ''0123456789'')"

definition digit_val :: "char \<Rightarrow> int" where
  "digit_val c = int (of_char c) - 48"

definition strip :: "string \<Rightarrow> string" where
  "strip s = rev (dropWhile is_space (rev (dropWhile is_space s)))"

text \<open>\<^verbatim>\<open>int(s)\<close> on a string, base 10: surrounding whitespace (for \<^verbatim>\<open>int\<close> the ASCII
  whitespace and the code points 133 and 160, not the separators 28 to 31), an optional
  sign, then digits with single underscores allowed between them, at most 4300 digits
  (the interpreter's default limit for the conversion of a string, leading zeros
  counted). \<open>None\<close> is \<^verbatim>\<open>ValueError\<close>.\<close>

definition is_int_space :: "char \<Rightarrow> bool" where
  "is_int_space c = (of_char c \<in> {9, 10, 11, 12, 13, 32, 133, 160 :: nat})"

fun digits_ok :: "string \<Rightarrow> bool" where
  "digits_ok [] = False"
| "digits_ok [c] = is_digit c"
| "digits_ok (c # d # cs) =
     (if is_digit c then (if d = CHR ''_'' then digits_ok cs else digits_ok (d # cs)) else False)"

definition digits_val :: "string \<Rightarrow> int" where
  "digits_val ds = foldl (\<lambda>acc c. 10 * acc + digit_val c) 0 (filter is_digit ds)"

definition py_int :: "string \<Rightarrow> int option" where
  "py_int s =
     (let t = rev (dropWhile is_int_space (rev (dropWhile is_int_space s)));
          sgn_ds = (case t of
                      [] \<Rightarrow> (1, [])
                    | c # cs \<Rightarrow> if c = CHR ''-'' then (- 1, cs)
                               else if c = CHR ''+'' then (1, cs) else (1, t))
      in if digits_ok (snd sgn_ds) \<and> length (filter is_digit (snd sgn_ds)) \<le> 4300
         then Some (fst sgn_ds * digits_val (snd sgn_ds)) else None)"

text \<open>\<^verbatim>\<open>str.lower\<close> for code points below 256: the ASCII capitals and the Latin-1 capitals
  (192 to 222, without the multiplication sign 215) move up by 32.\<close>

definition lower_char :: "char \<Rightarrow> char" where
  "lower_char c =
     (let n = (of_char c :: nat)
      in if (65 \<le> n \<and> n \<le> 90) \<or> (192 \<le> n \<and> n \<le> 222 \<and> n \<noteq> 215) then char_of (n + 32) else c)"

definition lower :: "string \<Rightarrow> string" where
  "lower s = map lower_char s"

text \<open>\<^verbatim>\<open>s.startswith(p)\<close> and \<^verbatim>\<open>p in s\<close> (substring test); the first argument is the needle.\<close>

fun starts_with :: "string \<Rightarrow> string \<Rightarrow> bool" where
  "starts_with [] s = True"
| "starts_with (p # ps) [] = False"
| "starts_with (p # ps) (c # cs) = (p = c \<and> starts_with ps cs)"

fun contains :: "string \<Rightarrow> string \<Rightarrow> bool" where
  "contains p [] = (p = [])"
| "contains p (c # cs) = (starts_with p (c # cs) \<or> contains p cs)"

text \<open>\<^verbatim>\<open>s.split(sep)\<close> for a separator of one character, and \<^verbatim>\<open>sep.join(parts)\<close>.\<close>

fun split_on :: "char \<Rightarrow> string \<Rightarrow> string list" where
  "split_on sep [] = [[]]"
| "split_on sep (c # cs) =
     (if c = sep then [] # split_on sep cs
      else (case split_on sep cs of [] \<Rightarrow> [[c]] | p # ps \<Rightarrow> (c # p) # ps))"

fun join :: "string \<Rightarrow> string list \<Rightarrow> string" where
  "join sep [] = []"
| "join sep [x] = x"
| "join sep (x # y # ys) = x @ sep @ join sep (y # ys)"

text \<open>\<^verbatim>\<open>s.replace(old, new)\<close> for a non-empty \<^verbatim>\<open>old\<close>: every occurrence, left to right, not overlapping.\<close>

fun replace :: "string \<Rightarrow> string \<Rightarrow> string \<Rightarrow> string" where
  "replace old new [] = []"
| "replace old new (c # cs) =
     (if old \<noteq> [] \<and> starts_with old (c # cs)
      then new @ replace old new (drop (length old) (c # cs))
      else c # replace old new cs)"

section \<open>Regular expressions\<close>

text \<open>
  The patterns of the program use character classes, sequence, alternation, \<^verbatim>\<open>$\<close> and
  repetition of a character class only. \<open>ends r s\<close> lists what is left of \<open>s\<close> after each
  way of matching \<open>r\<close> at its start, in the order in which the backtracking matcher of
  \<^verbatim>\<open>re\<close> tries them: a greedy repetition tries the longest run first, a lazy one the
  shortest. \<^verbatim>\<open>$\<close> (without \<^verbatim>\<open>re.MULTILINE\<close>) holds at the end of the string and before a
  newline that ends it.
\<close>

datatype regex =
    Cls "char \<Rightarrow> bool"
  | Eps
  | Eos
  | Seq regex regex
  | Alt regex regex
  | Star "char \<Rightarrow> bool"
  | LazyStar "char \<Rightarrow> bool"

fun tails_while :: "(char \<Rightarrow> bool) \<Rightarrow> string \<Rightarrow> string list" where
  "tails_while p [] = [[]]"
| "tails_while p (c # cs) = (c # cs) # (if p c then tails_while p cs else [])"

fun ends :: "regex \<Rightarrow> string \<Rightarrow> string list" where
  "ends (Cls p) s = (case s of [] \<Rightarrow> [] | c # cs \<Rightarrow> if p c then [cs] else [])"
| "ends Eps s = [s]"
| "ends Eos s = (if s = [] \<or> s = [CHR 0x0A] then [s] else [])"
| "ends (Seq a b) s = concat (map (ends b) (ends a s))"
| "ends (Alt a b) s = ends a s @ ends b s"
| "ends (Star p) s = rev (tails_while p s)"
| "ends (LazyStar p) s = tails_while p s"

definition seqs :: "regex list \<Rightarrow> regex" where
  "seqs rs = foldr Seq rs Eps"

definition alts :: "regex \<Rightarrow> regex list \<Rightarrow> regex" where
  "alts r rs = foldl Alt r rs"

definition chr :: "char \<Rightarrow> regex" where
  "chr x = Cls (\<lambda>c. c = x)"

text \<open>A literal under \<^verbatim>\<open>re.I\<close>.\<close>

definition lit_i :: "string \<Rightarrow> regex" where
  "lit_i s = seqs (map (\<lambda>x. Cls (\<lambda>c. lower_char c = lower_char x)) s)"

definition repeat :: "nat \<Rightarrow> regex \<Rightarrow> regex" where
  "repeat n r = seqs (replicate n r)"

definition cls_plus :: "(char \<Rightarrow> bool) \<Rightarrow> regex" where
  "cls_plus p = Seq (Cls p) (Star p)"

definition cls_lazy_plus :: "(char \<Rightarrow> bool) \<Rightarrow> regex" where
  "cls_lazy_plus p = Seq (Cls p) (LazyStar p)"

definition opt :: "regex \<Rightarrow> regex" where
  "opt r = Alt r Eps"

text \<open>\<^verbatim>\<open>re.match\<close> at the start of \<open>s\<close>: what is left after the first match found.\<close>

definition re_match :: "regex \<Rightarrow> string \<Rightarrow> string option" where
  "re_match r s = (case ends r s of [] \<Rightarrow> None | t # ts \<Rightarrow> Some t)"

text \<open>\<^verbatim>\<open>re.search\<close>: the matched text of the leftmost match.\<close>

fun re_search :: "regex \<Rightarrow> string \<Rightarrow> string option" where
  "re_search r [] = (case re_match r [] of None \<Rightarrow> None | Some t \<Rightarrow> Some [])"
| "re_search r (c # cs) =
     (case re_match r (c # cs) of
        None \<Rightarrow> re_search r cs
      | Some t \<Rightarrow> Some (take (length (c # cs) - length t) (c # cs)))"

text \<open>\<^verbatim>\<open>re.sub(r, repl, s)\<close> with a replacement free of group references: the matches are
  replaced left to right; after an empty match the next character is copied.\<close>

function re_sub :: "regex \<Rightarrow> string \<Rightarrow> string \<Rightarrow> string" where
  "re_sub r repl s =
     (case re_match r s of
        None \<Rightarrow> (case s of [] \<Rightarrow> [] | c # cs \<Rightarrow> c # re_sub r repl cs)
      | Some t \<Rightarrow>
          if length t < length s then repl @ re_sub r repl t
          else (case s of [] \<Rightarrow> repl | c # cs \<Rightarrow> repl @ c # re_sub r repl cs))"
  by pat_completeness auto
termination
  by (relation "measure (\<lambda>(r, repl, s). length s)") auto

declare re_sub.simps [simp del]

section \<open>Records of the API\<close>

text \<open>Truth value of a decoded JSON value, \<^verbatim>\<open>d.get(k)\<close> and \<^verbatim>\<open>d[k]\<close>.\<close>

fun truthy :: "json \<Rightarrow> bool" where
  "truthy JNull = False"
| "truthy (JBool b) = b"
| "truthy (JInt i) = (i \<noteq> 0)"
| "truthy (JStr s) = (s \<noteq> [])"
| "truthy (JList xs) = (xs \<noteq> [])"
| "truthy (JObj kvs) = (kvs \<noteq> [])"

text \<open>\<^verbatim>\<open>d.get(k)\<close>: \<open>JNull\<close> is Python's \<^verbatim>\<open>None\<close>; only a dict has the method.\<close>

fun dict_get :: "json \<Rightarrow> string \<Rightarrow> error + json" where
  "dict_get (JObj kvs) k = Inr (case map_of kvs k of None \<Rightarrow> JNull | Some v \<Rightarrow> v)"
| "dict_get _ k = Inl AttributeError"

section \<open>Dates\<close>

text \<open>
  An aware \<^verbatim>\<open>datetime\<close> in UTC: year, month, day, hour, minute, second, microsecond. Python
  compares two of them by their instants, which for one time zone is the lexicographic
  order of the fields.
\<close>

type_synonym datetime = "nat \<times> nat \<times> nat \<times> nat \<times> nat \<times> nat \<times> nat"

definition datetime_max :: datetime where
  "datetime_max = (9999, 12, 31, 23, 59, 59, 999999)"

text \<open>
  \<^verbatim>\<open>datetime.fromisoformat(s).astimezone(timezone.utc)\<close> belongs to the standard library, and
  what it accepts depends on the version of the interpreter (and, for a string without
  offset, on the local time zone). It is a parameter of the model: \<open>fromiso s\<close> is the
  result, \<open>None\<close> when either call raises. \<^verbatim>\<open>parse_iso8601\<close> catches every exception of its
  \<^verbatim>\<open>try\<close> block, also the \<^verbatim>\<open>AttributeError\<close> of \<^verbatim>\<open>due_at.replace\<close> on a value that is no string.
\<close>

type_synonym iso_parser = "string \<Rightarrow> datetime option"

definition parse_iso8601 :: "iso_parser \<Rightarrow> json \<Rightarrow> datetime option" where
  "parse_iso8601 fromiso due_at =
     (if \<not> truthy due_at then None
      else (case due_at of JStr s \<Rightarrow> fromiso (replace ''Z'' ''+00:00'' s) | _ \<Rightarrow> None))"

text \<open>\<^verbatim>\<open>str\<close> of an integer, and \<^verbatim>\<open>date.isoformat()\<close>, which is \<^verbatim>\<open>"%04d-%02d-%02d"\<close>.\<close>

definition digit_char :: "nat \<Rightarrow> char" where
  "digit_char d = ''0123456789'' ! d"

fun str_nat :: "nat \<Rightarrow> string" where
  "str_nat n = (if n < 10 then [digit_char n] else str_nat (n div 10) @ [digit_char (n mod 10)])"

declare str_nat.simps [simp del]

definition str_int :: "int \<Rightarrow> string" where
  "str_int i = (if i < 0 then CHR ''-'' # str_nat (nat (- i)) else str_nat (nat i))"

definition zero_pad :: "nat \<Rightarrow> string \<Rightarrow> string" where
  "zero_pad width s = replicate (width - length s) CHR ''0'' @ s"

definition format_date_only :: "datetime option \<Rightarrow> string" where
  "format_date_only dt =
     (case dt of
        None \<Rightarrow> ''No due date''
      | Some (y, m, d, rest) \<Rightarrow>
          zero_pad 4 (str_nat y) @ ''-'' @ zero_pad 2 (str_nat m) @ ''-'' @ zero_pad 2 (str_nat d))"


section \<open>Course names\<close>

text \<open>The four patterns of \<^verbatim>\<open>clean_course_name\<close>, in the order of their use:
  \<^verbatim>\<open>\s*\([^)]+?\d{4}\)\s*$\<close>,
  \<^verbatim>\<open>\s*\((?:Spring|Fall|Summer|Winter)[^)]+\)\s*$\<close> under \<^verbatim>\<open>re.I\<close>,
  \<^verbatim>\<open>-(?:\d{2}|ON\d?)-\d{5,}\<close> under \<^verbatim>\<open>re.I\<close>, and \<^verbatim>\<open>\s{2,}\<close>.\<close>

definition not_rparen :: "char \<Rightarrow> bool" where
  "not_rparen c = (c \<noteq> CHR '')'')"

definition year_suffix_regex :: regex where
  "year_suffix_regex =
     seqs [Star is_space, chr CHR ''('', cls_lazy_plus not_rparen, repeat 4 (Cls is_digit),
           chr CHR '')'', Star is_space, Eos]"

definition season_suffix_regex :: regex where
  "season_suffix_regex =
     seqs [Star is_space, chr CHR ''('',
           alts (lit_i ''Spring'') [lit_i ''Fall'', lit_i ''Summer'', lit_i ''Winter''],
           cls_plus not_rparen, chr CHR '')'', Star is_space, Eos]"

definition section_regex :: regex where
  "section_regex =
     seqs [chr CHR ''-'',
           Alt (repeat 2 (Cls is_digit)) (seqs [lit_i ''ON'', opt (Cls is_digit)]),
           chr CHR ''-'', repeat 5 (Cls is_digit), Star is_digit]"

definition spaces_regex :: regex where
  "spaces_regex = seqs [Cls is_space, Cls is_space, Star is_space]"

text \<open>The substitutions on a non-empty string, and the function on what \<^verbatim>\<open>course.get("name")\<close>
  gives: \<^verbatim>\<open>re.sub\<close> raises \<^verbatim>\<open>TypeError\<close> on a value that is no string.\<close>

definition clean_str :: "string \<Rightarrow> string" where
  "clean_str name =
     strip (re_sub spaces_regex '' ''
       (re_sub section_regex []
         (re_sub season_suffix_regex []
           (re_sub year_suffix_regex [] name))))"

definition clean_course_name :: "json \<Rightarrow> error + string" where
  "clean_course_name name =
     (if \<not> truthy name then Inr ''Untitled''
      else (case name of JStr s \<Rightarrow> Inr (clean_str s) | _ \<Rightarrow> Inl TypeError))"

section \<open>Transport\<close>

text \<open>
  \<^verbatim>\<open>_get_with_retries\<close>. Each turn of the loop issues one request and takes the next reply of
  the script.
\<close>

definition transient :: "int \<Rightarrow> bool" where
  "transient s = (s = 500 \<or> s = 502 \<or> s = 503 \<or> s = 504)"

definition issue :: "string \<Rightarrow> params option \<Rightarrow> reply list \<Rightarrow> world \<Rightarrow> world" where
  "issue url ps rest w = w\<lparr>script := rest, requests := requests w @ [(url, ps)]\<rparr>"

text \<open>
  \<^verbatim>\<open>time.sleep(n)\<close> for an integer \<open>n\<close>. The duration is first converted to nanoseconds in 64
  bits: \<^verbatim>\<open>OverflowError\<close> beyond 9223372036 seconds, in either direction. Then a negative
  duration is a \<^verbatim>\<open>ValueError\<close>. Then the operating system is asked, and may refuse a
  duration that is too long for it (\<^verbatim>\<open>OSError\<close>). \<open>slept n w\<close> is the world after a sleep of
  \<open>n\<close> seconds.
\<close>

definition sleep_max :: int where
  "sleep_max = 9223372036"

definition slept :: "int \<Rightarrow> world \<Rightarrow> world" where
  "slept n w = w\<lparr>sleeps := sleeps w @ [n]\<rparr>"

definition time_sleep :: "int \<Rightarrow> world \<Rightarrow> error + world" where
  "time_sleep n w =
     (if n > sleep_max \<or> n < - sleep_max then Inl OverflowError
      else if n < 0 then Inl ValueError
      else if n > os_limit w (length (sleeps w)) then Inl OSError
      else Inr (slept n w))"

definition retry_after :: "response \<Rightarrow> int option" where
  "retry_after resp =
     py_int (case headers resp ''Retry-After'' of None \<Rightarrow> ''3'' | Some v \<Rightarrow> v)"

text \<open>The \<^verbatim>\<open>while True\<close> loop, with the local variable \<^verbatim>\<open>attempt\<close> as an argument.\<close>

function retry_loop ::
  "string \<Rightarrow> params option \<Rightarrow> nat \<Rightarrow> nat \<Rightarrow> world \<Rightarrow> response run" where
  "retry_loop url ps max_retries attempt w =
     (case script w of
        [] \<Rightarrow> None
      | r # rest \<Rightarrow>
          (case r of
             Inl e \<Rightarrow> Some (Inl e, issue url ps rest w)
           | Inr resp \<Rightarrow>
               if status_code resp = 429 then
                 (case retry_after resp of
                    None \<Rightarrow> Some (Inl ValueError, issue url ps rest w)
                  | Some n \<Rightarrow>
                      (case time_sleep n (issue url ps rest w) of
                         Inl e \<Rightarrow> Some (Inl e, issue url ps rest w)
                       | Inr w' \<Rightarrow> retry_loop url ps max_retries (attempt + 1) w'))
               else if transient (status_code resp) then
                 (if attempt \<ge> max_retries then Some (Inr resp, issue url ps rest w)
                  else
                    (case time_sleep (2 ^ attempt) (issue url ps rest w) of
                       Inl e \<Rightarrow> Some (Inl e, issue url ps rest w)
                     | Inr w' \<Rightarrow> retry_loop url ps max_retries (attempt + 1) w'))
               else Some (Inr resp, issue url ps rest w)))"
  by pat_completeness auto
termination
  by (relation "measure (\<lambda>(url, ps, m, a, w). length (script w))")
     (auto simp: issue_def slept_def time_sleep_def split: if_splits)

declare retry_loop.simps [simp del]

definition get_with_retries :: "string \<Rightarrow> params option \<Rightarrow> nat \<Rightarrow> world \<Rightarrow> response run" where
  "get_with_retries url ps max_retries w = retry_loop url ps max_retries 0 w"

text \<open>The default of the parameter \<^verbatim>\<open>max_retries\<close>; no caller passes another value.\<close>

definition default_max_retries :: nat where
  "default_max_retries = 4"

section \<open>Paginator\<close>

text \<open>\<^verbatim>\<open>next_link_from_headers\<close>: the value of the header \<^verbatim>\<open>Link\<close> (or \<^verbatim>\<open>link\<close>, or the empty
  string), split at commas; the first part that contains \<^verbatim>\<open>rel="next"\<close> and matches
  \<^verbatim>\<open><([^>]+)>\<close> gives the text between the angle brackets.\<close>

definition link_regex :: regex where
  "link_regex = seqs [chr CHR ''<'', cls_plus (\<lambda>c. c \<noteq> CHR ''>''), chr CHR ''>'']"

definition rel_next :: string where
  "rel_next = ''rel=\"next\"''"

definition link_header :: "(string \<Rightarrow> string option) \<Rightarrow> string" where
  "link_header h =
     (case h ''Link'' of
        Some (c # cs) \<Rightarrow> c # cs
      | _ \<Rightarrow> (case h ''link'' of Some (c # cs) \<Rightarrow> c # cs | _ \<Rightarrow> []))"

fun first_next :: "string list \<Rightarrow> string option" where
  "first_next [] = None"
| "first_next (part # parts) =
     (if contains rel_next part
      then (case re_search link_regex part of
              Some m \<Rightarrow> Some (butlast (tl m))
            | None \<Rightarrow> first_next parts)
      else first_next parts)"

definition next_link_from_headers :: "(string \<Rightarrow> string option) \<Rightarrow> string option" where
  "next_link_from_headers h = first_next (split_on CHR '','' (link_header h))"

text \<open>\<^verbatim>\<open>resp.ok\<close> is false exactly when \<^verbatim>\<open>resp.raise_for_status()\<close> raises: for a status from 400
  to 599.\<close>

definition ok :: "response \<Rightarrow> bool" where
  "ok resp = (\<not> (400 \<le> status_code resp \<and> status_code resp < 600))"

text \<open>What one page yields: the elements of a list, or the single value.\<close>

definition page_items :: "json \<Rightarrow> json list" where
  "page_items data = (case data of JList xs \<Rightarrow> xs | _ \<Rightarrow> [data])"

text \<open>
  \<^verbatim>\<open>paginate\<close> is a generator, and runs only as far as its consumer pulls. The model is the
  loop \<^verbatim>\<open>for item in paginate(session, url, params): body\<close> as a whole: the body is a function
  from the consumer's state and the item to the new state and a flag that is true when
  the body leaves the loop with \<^verbatim>\<open>break\<close>, or to the exception it raises. After a \<^verbatim>\<open>break\<close> the
  generator is not resumed: the rest of the page is not yielded and no further request
  is issued.
\<close>

type_synonym 'a loop_body = "'a \<Rightarrow> json \<Rightarrow> error + ('a \<times> bool)"

fun for_items :: "'a loop_body \<Rightarrow> 'a \<Rightarrow> json list \<Rightarrow> error + ('a \<times> bool)" where
  "for_items f acc [] = Inr (acc, False)"
| "for_items f acc (x # xs) =
     (case f acc x of
        Inl e \<Rightarrow> Inl e
      | Inr (acc', brk) \<Rightarrow> if brk then Inr (acc', True) else for_items f acc' xs)"

lemma time_sleep_script: "time_sleep n w = Inr w' \<Longrightarrow> script w' = script w"
  by (auto simp: time_sleep_def slept_def split: if_splits)

lemma retry_loop_consumes:
  "retry_loop url ps m a w = Some (x, w') \<Longrightarrow> length (script w') < length (script w)"
proof (induction url ps m a w rule: retry_loop.induct)
  case (1 url ps m a w)
  show ?case
  proof (cases "script w")
    case Nil
    with "1.prems" show ?thesis by (simp add: retry_loop.simps)
  next
    case (Cons r rest)
    show ?thesis
    proof (cases r)
      case (Inl e)
      with Cons "1.prems" show ?thesis by (auto simp: retry_loop.simps issue_def)
    next
      case (Inr resp)
      note ih1 = "1.IH"(1) [OF Cons Inr]
      note ih2 = "1.IH"(2) [OF Cons Inr]
      from "1.prems" Cons Inr show ?thesis
        apply (subst (asm) retry_loop.simps)
        apply (simp split: if_splits option.splits sum.splits)
        apply (auto simp: issue_def dest!: ih1 ih2 dest: time_sleep_script)
        done
    qed
  qed
qed

function for_paginate ::
  "'a loop_body \<Rightarrow> 'a \<Rightarrow> string option \<Rightarrow> params option \<Rightarrow> world \<Rightarrow> 'a run" where
  "for_paginate f acc url ps w =
     (case url of
        None \<Rightarrow> Some (Inr acc, w)
      | Some u \<Rightarrow>
          if u = [] then Some (Inr acc, w)
          else
            (case get_with_retries u ps default_max_retries w of
               None \<Rightarrow> None
             | Some (Inl e, w') \<Rightarrow> Some (Inl e, w')
             | Some (Inr resp, w') \<Rightarrow>
                 if \<not> ok resp then Some (Inl (HTTPError (status_code resp)), w')
                 else
                   (case body resp of
                      None \<Rightarrow> Some (Inl JSONDecodeError, w')
                    | Some data \<Rightarrow>
                        (case for_items f acc (page_items data) of
                           Inl e \<Rightarrow> Some (Inl e, w')
                         | Inr (acc', brk) \<Rightarrow>
                             if brk then Some (Inr acc', w')
                             else for_paginate f acc' (next_link_from_headers (headers resp))
                                    None w'))))"
  by pat_completeness auto
termination
  by (relation "measure (\<lambda>(f, acc, url, ps, w). length (script w))")
     (auto simp: get_with_retries_def dest: retry_loop_consumes)

declare for_paginate.simps [simp del]

text \<open>The generator run to its end: \<^verbatim>\<open>list(paginate(session, url, params))\<close>.\<close>

definition paginate :: "string \<Rightarrow> params option \<Rightarrow> world \<Rightarrow> json list run" where
  "paginate url ps w = for_paginate (\<lambda>acc item. Inr (acc @ [item], False)) [] (Some url) ps w"

section \<open>Resource fetchers\<close>

text \<open>\<^verbatim>\<open>(c.get("term") or {}).get("name", "")\<close>, which must be a string for \<^verbatim>\<open>term.lower()\<close>.\<close>

definition term_name :: "json \<Rightarrow> error + string" where
  "term_name c =
     (case dict_get c ''term'' of
        Inl e \<Rightarrow> Inl e
      | Inr t \<Rightarrow>
          (case (if truthy t then t else JObj []) of
             JObj kvs \<Rightarrow>
               (case map_of kvs ''name'' of
                  None \<Rightarrow> Inr []
                | Some (JStr s) \<Rightarrow> Inr s
                | Some _ \<Rightarrow> Inl AttributeError)
           | _ \<Rightarrow> Inl AttributeError))"

text \<open>The body of the loop of \<^verbatim>\<open>list_courses_generic\<close>; the state is the list \<^verbatim>\<open>matches\<close>.\<close>

definition course_step :: "string \<Rightarrow> int \<Rightarrow> json list loop_body" where
  "course_step term_sub max_courses matches c =
     (case term_name c of
        Inl e \<Rightarrow> Inl e
      | Inr term \<Rightarrow>
          (let matches' = (if contains (lower term_sub) (lower term) then matches @ [c] else matches)
           in Inr (matches', int (length matches') \<ge> max_courses)))"

definition course_params :: params where
  "course_params =
     [(''enrollment_type[]'', ''student''),
      (''enrollment_state[]'', ''active''),
      (''enrollment_state[]'', ''completed''),
      (''include[]'', ''term''),
      (''per_page'', ''100'')]"

text \<open>The argument \<open>base_url\<close> is \<^verbatim>\<open>session.base_url\<close>.\<close>

definition list_courses_generic ::
  "string \<Rightarrow> string \<Rightarrow> string \<Rightarrow> int \<Rightarrow> world \<Rightarrow> json list run" where
  "list_courses_generic base_url endpoint term_sub max_courses w =
     for_paginate (course_step term_sub max_courses) [] (Some (base_url @ endpoint))
       (Some course_params) w"

text \<open>The loop over the endpoints of \<^verbatim>\<open>list_my_courses_for_term\<close>: a non-empty result is
  returned, an \<^verbatim>\<open>HTTPError\<close> of status 500 or more is swallowed, any other exception leaves
  the function.\<close>

fun try_endpoints :: "string \<Rightarrow> string \<Rightarrow> int \<Rightarrow> string list \<Rightarrow> world \<Rightarrow> json list run" where
  "try_endpoints base_url term_sub max_courses [] w = Some (Inr [], w)"
| "try_endpoints base_url term_sub max_courses (ep # eps) w =
     (case list_courses_generic base_url ep term_sub max_courses w of
        None \<Rightarrow> None
      | Some (Inr res, w') \<Rightarrow>
          if res \<noteq> [] then Some (Inr res, w')
          else try_endpoints base_url term_sub max_courses eps w'
      | Some (Inl (HTTPError s), w') \<Rightarrow>
          if \<not> (s \<ge> 500) then Some (Inl (HTTPError s), w')
          else try_endpoints base_url term_sub max_courses eps w'
      | Some (Inl e, w') \<Rightarrow> Some (Inl e, w'))"

definition endpoints_for :: "string \<Rightarrow> string list" where
  "endpoints_for source =
     (if source = ''courses'' then [''/api/v1/courses'', ''/api/v1/users/self/courses'']
      else [''/api/v1/users/self/courses'', ''/api/v1/courses''])"

definition list_my_courses_for_term ::
  "string \<Rightarrow> string \<Rightarrow> int \<Rightarrow> string \<Rightarrow> world \<Rightarrow> json list run" where
  "list_my_courses_for_term base_url term_name_substring max_courses source w =
     try_endpoints base_url term_name_substring max_courses (endpoints_for source) w"

section \<open>Sorter\<close>

text \<open>A function that may raise, applied to the elements of a list in order: the first
  exception ends it.\<close>

fun try_map :: "('a \<Rightarrow> error + 'b) \<Rightarrow> 'a list \<Rightarrow> error + 'b list" where
  "try_map f [] = Inr []"
| "try_map f (x # xs) =
     (case f x of
        Inl e \<Rightarrow> Inl e
      | Inr y \<Rightarrow> (case try_map f xs of Inl e \<Rightarrow> Inl e | Inr ys \<Rightarrow> Inr (y # ys)))"

text \<open>The function \<^verbatim>\<open>key\<close> of \<^verbatim>\<open>sort_assignments\<close>; \<^verbatim>\<open>a.get\<close> raises on a value that is no dict.\<close>

definition assignment_key :: "iso_parser \<Rightarrow> json \<Rightarrow> error + (nat \<times> datetime)" where
  "assignment_key fromiso a =
     (case dict_get a ''due_at'' of
        Inl e \<Rightarrow> Inl e
      | Inr d \<Rightarrow>
          (case parse_iso8601 fromiso d of
             None \<Rightarrow> Inr (1, datetime_max)
           | Some due \<Rightarrow> Inr (0, due)))"

text \<open>\<^verbatim>\<open>sorted(assignments, key=key)\<close>: the keys are computed once, element by element, and
  the elements are put in the order of their keys by a stable sort; a pair of keys is
  compared lexicographically.\<close>

definition sort_assignments :: "iso_parser \<Rightarrow> json list \<Rightarrow> error + json list" where
  "sort_assignments fromiso assignments =
     (case try_map (assignment_key fromiso) assignments of
        Inl e \<Rightarrow> Inl e
      | Inr keys \<Rightarrow> Inr (map snd (sort_key fst (zip keys assignments))))"

section \<open>Renderers\<close>

text \<open>\<^verbatim>\<open>course["id"]\<close>: \<^verbatim>\<open>KeyError\<close> on a dict without the key, \<^verbatim>\<open>TypeError\<close> on a value that is
  no dict.\<close>

fun subscript :: "json \<Rightarrow> string \<Rightarrow> error + json" where
  "subscript (JObj kvs) k = (case map_of kvs k of None \<Rightarrow> Inl KeyError | Some v \<Rightarrow> Inr v)"
| "subscript _ k = Inl TypeError"

text \<open>\<^verbatim>\<open>str\<close> of a value that can be a key of a dict. A list or a dict has no entry here: it
  is not hashable, and the lookup \<^verbatim>\<open>assignments_by_course.get(cid, [])\<close> raises \<^verbatim>\<open>TypeError\<close> on
  it.\<close>

fun scalar_str :: "json \<Rightarrow> string option" where
  "scalar_str JNull = Some ''None''"
| "scalar_str (JBool b) = Some (if b then ''True'' else ''False'')"
| "scalar_str (JInt i) = Some (str_int i)"
| "scalar_str (JStr s) = Some s"
| "scalar_str (JList xs) = None"
| "scalar_str (JObj kvs) = None"

text \<open>
  The course id inside an f-string. The conversion of an integer to a string raises
  \<^verbatim>\<open>ValueError\<close> when the integer has more than 4300 digits (the interpreter's default
  limit), also when it stands inside a list or a dict. For a list or a dict without such
  an integer the f-string is built, and the lookup that follows in \<^verbatim>\<open>render_text\<close> raises
  \<^verbatim>\<open>TypeError\<close>.
\<close>

definition long_int :: "int \<Rightarrow> bool" where
  "long_int i = (10 ^ 4300 \<le> \<bar>i\<bar>)"

fun has_long_int :: "json \<Rightarrow> bool" where
  "has_long_int (JInt i) = long_int i"
| "has_long_int (JList xs) = list_ex has_long_int xs"
| "has_long_int (JObj kvs) = list_ex (\<lambda>kv. has_long_int (snd kv)) kvs"
| "has_long_int _ = False"

definition format_id :: "json \<Rightarrow> error + string" where
  "format_id cid =
     (if has_long_int cid then Inl ValueError
      else (case scalar_str cid of None \<Rightarrow> Inl TypeError | Some s \<Rightarrow> Inr s))"

text \<open>The mapping from course ids to assignment lists is a map on keys; \<^verbatim>\<open>True\<close> and
  \<^verbatim>\<open>False\<close> are the keys 1 and 0.\<close>

fun hash_key :: "json \<Rightarrow> json" where
  "hash_key (JBool b) = JInt (if b then 1 else 0)"
| "hash_key v = v"

type_synonym assignments_by_course = "json \<Rightarrow> json list option"

definition assignments_for :: "assignments_by_course \<Rightarrow> json \<Rightarrow> json list" where
  "assignments_for abc cid = (case abc (hash_key cid) of None \<Rightarrow> [] | Some as \<Rightarrow> as)"

text \<open>\<^verbatim>\<open>(a.get("name") or "Untitled").strip()\<close> and
  \<^verbatim>\<open>format_date_only(parse_iso8601(a.get("due_at")))\<close>.\<close>

definition assignment_name :: "json \<Rightarrow> error + string" where
  "assignment_name a =
     (case dict_get a ''name'' of
        Inl e \<Rightarrow> Inl e
      | Inr n \<Rightarrow>
          if \<not> truthy n then Inr (strip ''Untitled'')
          else (case n of JStr s \<Rightarrow> Inr (strip s) | _ \<Rightarrow> Inl AttributeError))"

definition due_str :: "iso_parser \<Rightarrow> json \<Rightarrow> error + string" where
  "due_str fromiso a =
     (case dict_get a ''due_at'' of
        Inl e \<Rightarrow> Inl e
      | Inr d \<Rightarrow> Inr (format_date_only (parse_iso8601 fromiso d)))"

text \<open>\<^verbatim>\<open>render_text\<close>: the line of one assignment, the lines of one course, and the whole.\<close>

definition text_line :: "iso_parser \<Rightarrow> json \<Rightarrow> error + string" where
  "text_line fromiso a =
     (case due_str fromiso a of
        Inl e \<Rightarrow> Inl e
      | Inr due \<Rightarrow>
          (case assignment_name a of
             Inl e \<Rightarrow> Inl e
           | Inr aname \<Rightarrow> Inr (''- \"'' @ aname @ ''\" | Due: '' @ due)))"

definition text_course :: "iso_parser \<Rightarrow> assignments_by_course \<Rightarrow> json \<Rightarrow> error + string list" where
  "text_course fromiso abc course =
     (case subscript course ''id'' of
        Inl e \<Rightarrow> Inl e
      | Inr cid \<Rightarrow>
          (case dict_get course ''name'' of
             Inl e \<Rightarrow> Inl e
           | Inr name \<Rightarrow>
               (case clean_course_name name of
                  Inl e \<Rightarrow> Inl e
                | Inr cname \<Rightarrow>
                    (case format_id cid of
                       Inl e \<Rightarrow> Inl e
                     | Inr cid_str \<Rightarrow>
                         (case try_map (text_line fromiso) (assignments_for abc cid) of
                            Inl e \<Rightarrow> Inl e
                          | Inr ls \<Rightarrow>
                              Inr ((''Course: '' @ cname @ '' (ID: '' @ cid_str @ '')'') # ls
                                   @ [''''])))))) "

definition render_text ::
  "iso_parser \<Rightarrow> string \<Rightarrow> json list \<Rightarrow> assignments_by_course \<Rightarrow> error + string" where
  "render_text fromiso title courses abc =
     (case try_map (text_course fromiso abc) courses of
        Inl e \<Rightarrow> Inl e
      | Inr blocks \<Rightarrow> Inr (join [CHR 0x0A] ([title, ''''] @ concat blocks)))"

text \<open>\<^verbatim>\<open>render_csv\<close>: one data row, the rows of one course, the list \<^verbatim>\<open>rows\<close>, and its lines
  joined. The title is not used. The id is put into the f-string of each row, after the
  due date and the name of the assignment have been computed; the lookup comes before
  the rows.\<close>

definition csv_row :: "iso_parser \<Rightarrow> json \<Rightarrow> string \<Rightarrow> json \<Rightarrow> error + string" where
  "csv_row fromiso cid cname a =
     (case due_str fromiso a of
        Inl e \<Rightarrow> Inl e
      | Inr due \<Rightarrow>
          (case assignment_name a of
             Inl e \<Rightarrow> Inl e
           | Inr n \<Rightarrow>
               (case format_id cid of
                  Inl e \<Rightarrow> Inl e
                | Inr cid_str \<Rightarrow>
                    Inr (cid_str @ '','' @ cname @ '','' @ replace '','' '' '' n @ '','' @ due))))"

definition csv_course :: "iso_parser \<Rightarrow> assignments_by_course \<Rightarrow> json \<Rightarrow> error + string list" where
  "csv_course fromiso abc course =
     (case subscript course ''id'' of
        Inl e \<Rightarrow> Inl e
      | Inr cid \<Rightarrow>
          (case dict_get course ''name'' of
             Inl e \<Rightarrow> Inl e
           | Inr name \<Rightarrow>
               (case clean_course_name name of
                  Inl e \<Rightarrow> Inl e
                | Inr cleaned \<Rightarrow>
                    (case scalar_str cid of
                       None \<Rightarrow> Inl TypeError
                     | Some s \<Rightarrow>
                         try_map (csv_row fromiso cid (replace '','' '' '' cleaned))
                           (assignments_for abc cid)))))"

definition csv_header :: string where
  "csv_header = ''course_id,course_name,assignment,due_date''"

definition csv_rows ::
  "iso_parser \<Rightarrow> json list \<Rightarrow> assignments_by_course \<Rightarrow> error + string list" where
  "csv_rows fromiso courses abc =
     (case try_map (csv_course fromiso abc) courses of
        Inl e \<Rightarrow> Inl e
      | Inr blocks \<Rightarrow> Inr (csv_header # concat blocks))"

definition render_csv ::
  "iso_parser \<Rightarrow> string \<Rightarrow> json list \<Rightarrow> assignments_by_course \<Rightarrow> error + string" where
  "render_csv fromiso title courses abc =
     (case csv_rows fromiso courses abc of
        Inl e \<Rightarrow> Inl e
      | Inr rows \<Rightarrow> Inr (join [CHR 0x0A] rows))"

section \<open>Notions used in the statements\<close>

text \<open>The operating system accepts, all through the run, every sleep of at most \<open>2 ^ 33\<close>
  seconds; this is the longest backoff that is no overflow.\<close>

definition sleeps_allowed :: "world \<Rightarrow> bool" where
  "sleeps_allowed w = (\<forall>k. 2 ^ 33 \<le> os_limit w k)"

text \<open>A page that the transport returns at once and the paginator accepts: no retry status,
  \<^verbatim>\<open>resp.ok\<close>, and a body that decodes.\<close>

definition good_page :: "response \<Rightarrow> bool" where
  "good_page p =
     (status_code p \<noteq> 429 \<and> \<not> transient (status_code p) \<and> ok p \<and> body p \<noteq> None)"

definition items_of :: "response \<Rightarrow> json list" where
  "items_of p = (case body p of None \<Rightarrow> [] | Some data \<Rightarrow> page_items data)"

text \<open>A record on which the loop body of \<^verbatim>\<open>list_courses_generic\<close> raises nothing, and one that it
  appends to \<^verbatim>\<open>matches\<close>.\<close>

definition course_ok :: "json \<Rightarrow> bool" where
  "course_ok c = (case term_name c of Inl e \<Rightarrow> False | Inr t \<Rightarrow> True)"

definition course_matches :: "string \<Rightarrow> json \<Rightarrow> bool" where
  "course_matches term_sub c =
     (case term_name c of Inl e \<Rightarrow> False | Inr t \<Rightarrow> contains (lower term_sub) (lower t))"

text \<open>The outcomes of one endpoint after which \<^verbatim>\<open>list_my_courses_for_term\<close> goes on to the next
  one: an empty result, or an \<^verbatim>\<open>HTTPError\<close> of status 500 or more.\<close>

definition falls_back :: "error + json list \<Rightarrow> bool" where
  "falls_back r =
     (case r of
        Inr res \<Rightarrow> res = []
      | Inl (HTTPError s) \<Rightarrow> s \<ge> 500
      | Inl e \<Rightarrow> False)"

text \<open>An assignment is a dict; its due instant, if \<^verbatim>\<open>parse_iso8601\<close> finds one; and the pair
  that \<^verbatim>\<open>key\<close> gives for it.\<close>

definition is_dict :: "json \<Rightarrow> bool" where
  "is_dict a = (case a of JObj kvs \<Rightarrow> True | _ \<Rightarrow> False)"

definition due_of :: "iso_parser \<Rightarrow> json \<Rightarrow> datetime option" where
  "due_of fromiso a =
     (case dict_get a ''due_at'' of Inl e \<Rightarrow> None | Inr d \<Rightarrow> parse_iso8601 fromiso d)"

definition key_of :: "iso_parser \<Rightarrow> json \<Rightarrow> nat \<times> datetime" where
  "key_of fromiso a = (case due_of fromiso a of None \<Rightarrow> (1, datetime_max) | Some due \<Rightarrow> (0, due))"

text \<open>A string without two whitespace characters next to each other.\<close>

fun no_double_space :: "string \<Rightarrow> bool" where
  "no_double_space [] = True"
| "no_double_space [c] = True"
| "no_double_space (a # b # cs) = (\<not> (is_space a \<and> is_space b) \<and> no_double_space (b # cs))"

text \<open>Every comma replaced by a space; and the shape of the data rows of \<^verbatim>\<open>render_csv\<close>: the row
  of an assignment of the course with id \<open>i\<close> and cleaned name \<open>cleaned\<close>, and the rows of a
  course, one for each of its assignments, in their order.\<close>

definition comma_to_space :: "string \<Rightarrow> string" where
  "comma_to_space s = map (\<lambda>c. if c = CHR '','' then CHR '' '' else c) s"

definition csv_row_ok :: "iso_parser \<Rightarrow> int \<Rightarrow> string \<Rightarrow> json \<Rightarrow> string \<Rightarrow> bool" where
  "csv_row_ok fromiso i cleaned a row =
     (\<exists>n d. assignment_name a = Inr n \<and> due_str fromiso a = Inr d \<and>
            row = str_int i @ '','' @ comma_to_space cleaned @ '','' @ comma_to_space n @ '','' @ d)"

definition csv_block_ok :: "iso_parser \<Rightarrow> assignments_by_course \<Rightarrow> json \<Rightarrow> string list \<Rightarrow> bool" where
  "csv_block_ok fromiso abc c blk =
     (\<exists>i name cleaned.
        subscript c ''id'' = Inr (JInt i) \<and> dict_get c ''name'' = Inr name \<and>
        clean_course_name name = Inr cleaned \<and>
        list_all2 (csv_row_ok fromiso i cleaned) (assignments_for abc (JInt i)) blk)"

text \<open>Concrete responses used in the examples below.\<close>

definition no_headers :: "string \<Rightarrow> string option" where
  "no_headers = (\<lambda>k. None)"

definition r200 :: response where
  "r200 = \<lparr>status_code = 200, headers = no_headers, body = Some (JList [])\<rparr>"

definition r503 :: response where
  "r503 = \<lparr>status_code = 503, headers = no_headers, body = None\<rparr>"

definition r429 :: "string option \<Rightarrow> response" where
  "r429 v = \<lparr>status_code = 429,
             headers = (\<lambda>k. if k = ''Retry-After'' then v else None), body = None\<rparr>"

text \<open>A world whose operating system accepts every duration that is not an overflow.\<close>

definition ex_os_limit :: "nat \<Rightarrow> int" where
  "ex_os_limit = (\<lambda>k. sleep_max)"

definition world0 :: "reply list \<Rightarrow> world" where
  "world0 rs = \<lparr>script = rs, requests = [], sleeps = [], os_limit = ex_os_limit\<rparr>"

definition ex_course :: "int \<Rightarrow> string \<Rightarrow> json" where
  "ex_course i term =
     JObj [(''id'', JInt i), (''name'', JStr ''Course''), (''term'', JObj [(''name'', JStr term)])]"

definition ex_page :: "string option \<Rightarrow> json \<Rightarrow> response" where
  "ex_page link data =
     \<lparr>status_code = 200, headers = (\<lambda>k. if k = ''Link'' then link else None), body = Some data\<rparr>"

definition ex_link :: string where
  "ex_link = ''<https://x/p1>; rel=\"current\",<https://x/p2>; rel=\"next\"''"

definition ex_iso :: iso_parser where
  "ex_iso s = (if s = ''2025-03-01T00:00:00+00:00'' then Some (2025, 3, 1, 0, 0, 0, 0)
              else if s = ''2025-02-01T00:00:00+00:00'' then Some (2025, 2, 1, 0, 0, 0, 0) else None)"

definition ex_assignment :: "string \<Rightarrow> json \<Rightarrow> json" where
  "ex_assignment name due = JObj [(''name'', JStr name), (''due_at'', due)]"

definition ex_abc :: assignments_by_course where
  "ex_abc = [JInt 1 \<mapsto> [ex_assignment ''HW1'' (JStr ''2025-03-01T00:00:00Z''),
                          ex_assignment ''Final'' JNull]]"

section \<open>Properties of the transport\<close>

lemma sleeps_allowed_issue: "sleeps_allowed (issue url ps rest w) = sleeps_allowed w"
  by (simp add: sleeps_allowed_def issue_def)

lemma sleeps_allowed_slept: "sleeps_allowed (slept n w) = sleeps_allowed w"
  by (simp add: sleeps_allowed_def slept_def)

lemma sleeps_allowed_update:
  "sleeps_allowed (w\<lparr>script := s, requests := r, sleeps := l\<rparr>) = sleeps_allowed w"
  by (simp add: sleeps_allowed_def)

lemma time_sleep_ok:
  assumes "0 \<le> n" and "n \<le> 2 ^ 33" and "sleeps_allowed w"
  shows "time_sleep n w = Inr (slept n w)"
proof -
  have "n \<le> os_limit w (length (sleeps w))"
    using assms(2,3) unfolding sleeps_allowed_def by (meson order_trans)
  moreover have "n \<le> sleep_max" using assms(2) by (simp add: sleep_max_def)
  ultimately show ?thesis using assms(1) by (simp add: time_sleep_def sleep_max_def)
qed

lemma backoff_bound: "a < 34 \<Longrightarrow> (0::int) \<le> 2 ^ a \<and> (2::int) ^ a \<le> 2 ^ 33"
  by (simp add: power_increasing del: power_numeral)

lemma loop_429:
  "script w = Inr q # rest \<Longrightarrow> status_code q = 429 \<Longrightarrow> retry_after q = Some d \<Longrightarrow> 0 \<le> d \<Longrightarrow>
   d \<le> 2 ^ 33 \<Longrightarrow> sleeps_allowed w \<Longrightarrow>
   retry_loop url ps m a w = retry_loop url ps m (Suc a) (slept d (issue url ps rest w))"
  by (subst retry_loop.simps) (simp add: time_sleep_ok sleeps_allowed_issue)

lemma loop_429_bad:
  "script w = Inr q # rest \<Longrightarrow> status_code q = 429 \<Longrightarrow> retry_after q = None \<Longrightarrow>
   retry_loop url ps m a w = Some (Inl ValueError, issue url ps rest w)"
  by (subst retry_loop.simps) simp

lemma loop_transient_retry:
  assumes "script w = Inr r # rest" and "transient (status_code r)" and "a < m" and "a < 34"
      and "sleeps_allowed w"
  shows "retry_loop url ps m a w =
         retry_loop url ps m (Suc a) (slept (2 ^ a) (issue url ps rest w))"
proof -
  have "time_sleep (2 ^ a) (issue url ps rest w) = Inr (slept (2 ^ a) (issue url ps rest w))"
    using backoff_bound [OF assms(4)] assms(5)
    by (intro time_sleep_ok) (simp_all add: sleeps_allowed_issue del: power_numeral)
  then show ?thesis
    using assms(1,2,3) by (subst retry_loop.simps) (auto simp: transient_def)
qed

lemma loop_transient_final:
  "script w = Inr r # rest \<Longrightarrow> transient (status_code r) \<Longrightarrow> m \<le> a \<Longrightarrow>
   retry_loop url ps m a w = Some (Inr r, issue url ps rest w)"
  by (subst retry_loop.simps) (auto simp: transient_def)

lemma loop_other:
  "script w = Inr r # rest \<Longrightarrow> status_code r \<noteq> 429 \<Longrightarrow> \<not> transient (status_code r) \<Longrightarrow>
   retry_loop url ps m a w = Some (Inr r, issue url ps rest w)"
  by (subst retry_loop.simps) simp

lemma loop_transients:
  "\<forall>r\<in>set rs. transient (status_code r) \<Longrightarrow> script w = map Inr rs @ rest \<Longrightarrow>
   m \<le> 34 \<Longrightarrow> sleeps_allowed w \<Longrightarrow>
   retry_loop url ps m a w =
     (if rs \<noteq> [] \<and> m < a + length rs
      then Some (Inr (rs ! (m - a)),
                 w\<lparr>script := drop (Suc (m - a)) (map Inr rs) @ rest,
                   requests := requests w @ replicate (Suc (m - a)) (url, ps),
                   sleeps := sleeps w @ map (\<lambda>i. 2 ^ i) [a..<m]\<rparr>)
      else retry_loop url ps m (a + length rs)
             (w\<lparr>script := rest,
                requests := requests w @ replicate (length rs) (url, ps),
                sleeps := sleeps w @ map (\<lambda>i. 2 ^ i) [a..<a + length rs]\<rparr>))"
proof (induction rs arbitrary: a w)
  case Nil
  then show ?case by (cases w) simp
next
  case (Cons r rs)
  have sc: "script w = Inr r # (map Inr rs @ rest)" using Cons.prems by simp
  have tr: "transient (status_code r)" using Cons.prems by simp
  show ?case
  proof (cases "a < m")
    case True
    let ?w = "slept (2 ^ a) (issue url ps (map Inr rs @ rest) w)"
    have a34: "a < 34" using True Cons.prems(3) by simp
    have st: "retry_loop url ps m a w = retry_loop url ps m (Suc a) ?w"
      by (rule loop_transient_retry [OF sc tr True a34 Cons.prems(4)])
    have al: "sleeps_allowed ?w"
      using Cons.prems(4) by (simp add: sleeps_allowed_slept sleeps_allowed_issue)
    have "script ?w = map Inr rs @ rest" by (simp add: slept_def issue_def)
    from Cons.IH [OF _ this Cons.prems(3) al, of "Suc a"] Cons.prems(1)
    have ih: "retry_loop url ps m (Suc a) ?w = (if rs \<noteq> [] \<and> m < Suc a + length rs
      then Some (Inr (rs ! (m - Suc a)),
                 ?w\<lparr>script := drop (Suc (m - Suc a)) (map Inr rs) @ rest,
                   requests := requests ?w @ replicate (Suc (m - Suc a)) (url, ps),
                   sleeps := sleeps ?w @ map (\<lambda>i. 2 ^ i) [Suc a..<m]\<rparr>)
      else retry_loop url ps m (Suc a + length rs)
             (?w\<lparr>script := rest,
                requests := requests ?w @ replicate (length rs) (url, ps),
                sleeps := sleeps ?w @ map (\<lambda>i. 2 ^ i) [Suc a..<Suc a + length rs]\<rparr>))"
      by simp
    have m: "m - a = Suc (m - Suc a)" using True by simp
    show ?thesis
      unfolding st ih using True
      by (simp add: m slept_def issue_def upt_conv_Cons replicate_app_Cons_same Suc_le_eq)
  next
    case False
    then have "m \<le> a" by simp
    from loop_transient_final [OF sc tr this] False show ?thesis
      by (simp add: issue_def)
  qed
qed

lemma py_int_3: "py_int ''3'' = Some 3"
  by (simp add: py_int_def is_int_space_def digits_val_def digit_val_def is_digit_def)

lemma py_int_7: "py_int ''7'' = Some 7"
  by (simp add: py_int_def is_int_space_def digits_val_def digit_val_def is_digit_def)

lemma py_int_12: "py_int '' +1_2 '' = Some 12"
  by (simp add: py_int_def is_int_space_def digits_val_def digit_val_def is_digit_def)

lemma py_int_date: "py_int ''Wed, 21 Oct 2015 07:28:00 GMT'' = None"
  by (simp add: py_int_def is_int_space_def digits_val_def digit_val_def is_digit_def)

lemma loop_429s:
  "list_all2 (\<lambda>q d. status_code q = 429 \<and> retry_after q = Some d \<and> 0 \<le> d \<and> d \<le> 2 ^ 33)
     qs ds \<Longrightarrow>
   script w = map Inr qs @ rest \<Longrightarrow> sleeps_allowed w \<Longrightarrow>
   retry_loop url ps m a w =
     retry_loop url ps m (a + length qs)
       (w\<lparr>script := rest,
          requests := requests w @ replicate (length qs) (url, ps),
          sleeps := sleeps w @ ds\<rparr>)"
proof (induction qs ds arbitrary: a w rule: list_all2_induct)
  case Nil
  then show ?case by (cases w) simp
next
  case (Cons q qs d ds)
  let ?w = "slept d (issue url ps (map Inr qs @ rest) w)"
  have sc: "script w = Inr q # (map Inr qs @ rest)" using Cons.prems by simp
  have st: "retry_loop url ps m a w = retry_loop url ps m (Suc a) ?w"
    using Cons.hyps(1) Cons.prems(2) by (intro loop_429 [OF sc]) simp_all
  have al: "sleeps_allowed ?w"
    using Cons.prems(2) by (simp add: sleeps_allowed_slept sleeps_allowed_issue)
  have "script ?w = map Inr qs @ rest" by (simp add: slept_def issue_def)
  from Cons.IH [OF this al, of "Suc a"] show ?case
    unfolding st by (simp add: slept_def issue_def replicate_app_Cons_same)
qed

text \<open>
  Claim C2. A run of transient (500/502/503/504) replies is retried with sleeps of
  \<open>2 ^ attempt\<close> seconds, \<open>attempt\<close> counting from 0, for at most \<open>max_retries\<close> further
  requests: when the run is longer than \<open>max_retries\<close>, the reply number \<open>max_retries\<close>
  (counting from 0) is returned, not raised, after the sleeps \<open>1, 2, ..., 2 ^ (max_retries - 1)\<close>
  and \<open>max_retries + 1\<close> identical requests; a shorter run is retried throughout and the
  loop goes on with the reply that follows it. This holds for every \<open>max_retries\<close> up to 34
  (from \<open>2 ^ 34\<close> seconds on \<^verbatim>\<open>time.sleep\<close> raises \<^verbatim>\<open>OverflowError\<close>), on a system that accepts
  the sleeps. With the default of 4 retries, five replies of status 503 give the fifth
  one back.
\<close>

theorem transient_backoff:
  assumes "\<forall>r\<in>set rs. transient (status_code r)"
      and "script w = map Inr rs @ rest"
      and "m \<le> 34"
      and "sleeps_allowed w"
  shows "get_with_retries url ps m w =
     (if m < length rs
      then Some (Inr (rs ! m),
                 w\<lparr>script := drop (Suc m) (map Inr rs) @ rest,
                   requests := requests w @ replicate (Suc m) (url, ps),
                   sleeps := sleeps w @ map (\<lambda>i. 2 ^ i) [0..<m]\<rparr>)
      else retry_loop url ps m (length rs)
             (w\<lparr>script := rest,
                requests := requests w @ replicate (length rs) (url, ps),
                sleeps := sleeps w @ map (\<lambda>i. 2 ^ i) [0..<length rs]\<rparr>))"
  using loop_transients [OF assms, of url ps 0]
  by (auto simp: get_with_retries_def)

lemma world0_allowed: "sleeps_allowed (world0 rs)"
  by (simp add: sleeps_allowed_def world0_def ex_os_limit_def sleep_max_def)

theorem transient_backoff_witness:
  "get_with_retries ''u'' None default_max_retries (world0 (replicate 5 (Inr r503))) =
     Some (Inr r503, \<lparr>script = [], requests = replicate 5 (''u'', None), sleeps = [1, 2, 4, 8],
                      os_limit = ex_os_limit\<rparr>)"
  using transient_backoff [of "replicate 5 r503" "world0 (replicate 5 (Inr r503))" "[]"
      default_max_retries "''u''" None] world0_allowed [of "replicate 5 (Inr r503)"]
  by (simp add: world0_def r503_def transient_def default_max_retries_def upt_rec numeral_eq_Suc)

text \<open>
  What the branch for status 429 does when the \<^verbatim>\<open>Retry-After\<close> header is missing, or holds a
  string that \<^verbatim>\<open>int\<close> reads as an integer from 0 to \<open>2 ^ 33\<close>: a sleep of that many seconds (3
  when the header is missing), then the identical request, whatever the number of such
  replies and whatever \<open>max_retries\<close> is.
\<close>

lemma rate_limit_no_cap:
  assumes "list_all2 (\<lambda>q d. status_code q = 429 \<and>
             (headers q ''Retry-After'' = None \<and> d = 3 \<or>
              (\<exists>v. headers q ''Retry-After'' = Some v \<and> py_int v = Some d \<and>
                   0 \<le> d \<and> d \<le> 2 ^ 33))) qs ds"
      and "script w = map Inr qs @ rest"
      and "sleeps_allowed w"
  shows "get_with_retries url ps m w =
     retry_loop url ps m (length qs)
       (w\<lparr>script := rest,
          requests := requests w @ replicate (length qs) (url, ps),
          sleeps := sleeps w @ ds\<rparr>)"
proof -
  have "list_all2 (\<lambda>q d. status_code q = 429 \<and> retry_after q = Some d \<and> 0 \<le> d \<and> d \<le> 2 ^ 33)
          qs ds"
    using assms(1)
    by (rule list_all2_mono) (auto simp: retry_after_def py_int_3)
  from loop_429s [OF this assms(2,3), of url ps m 0] show ?thesis
    by (simp add: get_with_retries_def)
qed

lemma rate_limit_no_cap_example:
  "get_with_retries ''u'' None 0
     (world0 [Inr (r429 None), Inr (r429 (Some ''7'')), Inr (r429 (Some '' +1_2 '')), Inr r200]) =
   Some (Inr r200, \<lparr>script = [], requests = replicate 4 (''u'', None), sleeps = [3, 7, 12],
                    os_limit = ex_os_limit\<rparr>)"
proof -
  let ?qs = "[r429 None, r429 (Some ''7''), r429 (Some '' +1_2 '')]"
  let ?w = "world0 [Inr (r429 None), Inr (r429 (Some ''7'')), Inr (r429 (Some '' +1_2 '')), Inr r200]"
  have "get_with_retries ''u'' None 0 ?w =
     retry_loop ''u'' None 0 (length ?qs)
       (?w\<lparr>script := [Inr r200],
          requests := requests ?w @ replicate (length ?qs) (''u'', None),
          sleeps := sleeps ?w @ [3, 7, 12]\<rparr>)"
    by (rule rate_limit_no_cap) (simp_all add: r429_def py_int_7 py_int_12 world0_allowed,
        simp add: world0_def)
  then show ?thesis
    by (simp add: world0_def r200_def transient_def issue_def numeral_eq_Suc
        loop_other [where rest = "[]"])
qed

lemma py_int_big: "py_int ''10000000000'' = Some 10000000000"
  by (simp add: py_int_def is_int_space_def digits_val_def digit_val_def is_digit_def)

lemma loop_429_overflow:
  "script w = Inr q # rest \<Longrightarrow> status_code q = 429 \<Longrightarrow> retry_after q = Some d \<Longrightarrow>
   sleep_max < d \<Longrightarrow>
   retry_loop url ps m a w = Some (Inl OverflowError, issue url ps rest w)"
  by (subst retry_loop.simps) (simp add: time_sleep_def)

text \<open>
  Claim C3. The claim asks for a sleep of 3 seconds and a retry also when the \<^verbatim>\<open>Retry-After\<close>
  header cannot be read. The code does not get there: on a reply of status 429 whose
  header is an HTTP date, \<^verbatim>\<open>int\<close> raises \<^verbatim>\<open>ValueError\<close>, and the exception leaves the function
  with no sleep and no second request. (Likewise, a header of 10000000000 seconds makes
  \<^verbatim>\<open>time.sleep\<close> raise \<^verbatim>\<open>OverflowError\<close>.)
\<close>

theorem rate_limit_unparseable_raises:
  "get_with_retries ''u'' None default_max_retries
     (world0 [Inr (r429 (Some ''Wed, 21 Oct 2015 07:28:00 GMT'')), Inr r200]) =
   Some (Inl ValueError, \<lparr>script = [Inr r200], requests = [(''u'', None)], sleeps = [],
                          os_limit = ex_os_limit\<rparr>) \<and>
   get_with_retries ''u'' None default_max_retries
     (world0 [Inr (r429 (Some ''10000000000'')), Inr r200]) =
   Some (Inl OverflowError, \<lparr>script = [Inr r200], requests = [(''u'', None)], sleeps = [],
                             os_limit = ex_os_limit\<rparr>)"
  by (simp add: get_with_retries_def world0_def r429_def issue_def retry_after_def py_int_date
      py_int_big sleep_max_def
      loop_429_bad [where rest = "[Inr r200]"] loop_429_overflow [where rest = "[Inr r200]"])

text \<open>
  Claim C9. The counter \<open>attempt\<close> is shared by both branches: after \<open>k\<close> replies of status 429
  (each slept and retried), a run of transient replies gets only \<open>max_retries - k\<close> backoff
  retries (none when \<open>k \<ge> max_retries\<close>), the first of them sleeping \<open>2 ^ k\<close> seconds, and
  the transient reply number \<open>max_retries - k\<close> of the run (counting from 0) is returned.
  This holds for every \<open>max_retries\<close> up to 34 and for delays of at most \<open>2 ^ 33\<close> seconds, on
  a system that accepts the sleeps.
\<close>

theorem shared_attempt_counter:
  assumes "list_all2 (\<lambda>q d. status_code q = 429 \<and> retry_after q = Some d \<and> 0 \<le> d \<and> d \<le> 2 ^ 33)
             qs ds"
      and "\<forall>r\<in>set rs. transient (status_code r)"
      and "length rs = Suc (m - length qs)"
      and "script w = map Inr qs @ map Inr rs @ rest"
      and "m \<le> 34"
      and "sleeps_allowed w"
  shows "get_with_retries url ps m w =
     Some (Inr (last rs),
           w\<lparr>script := rest,
             requests := requests w @ replicate (length qs + length rs) (url, ps),
             sleeps := sleeps w @ ds @ map (\<lambda>i. 2 ^ i) [length qs..<m]\<rparr>)"
proof -
  let ?w = "w\<lparr>script := map Inr rs @ rest,
          requests := requests w @ replicate (length qs) (url, ps),
          sleeps := sleeps w @ ds\<rparr>"
  have a: "get_with_retries url ps m w = retry_loop url ps m (length qs) ?w"
    using loop_429s [OF assms(1) assms(4) assms(6), of url ps m 0]
    by (simp add: get_with_retries_def)
  have sc: "script ?w = map Inr rs @ rest" by simp
  have al: "sleeps_allowed ?w" using assms(6) by (simp add: sleeps_allowed_update)
  have ne: "rs \<noteq> []" using assms(3) by auto
  have lt: "m < length qs + length rs" using assms(3) by simp
  have ix: "rs ! (m - length qs) = last rs"
    using assms(3) ne by (simp add: last_conv_nth)
  have dr: "drop (Suc (m - length qs)) (map Inr rs) = ([] :: reply list)"
    using assms(3) by simp
  have rp: "replicate (length qs) (url, ps) @ replicate (Suc (m - length qs)) (url, ps) =
      replicate (length qs + length rs) (url, ps)"
    unfolding assms(3) by (simp only: replicate_add)
  show ?thesis
    unfolding a loop_transients [OF assms(2) sc assms(5) al, of url ps "length qs"]
    using ne lt by (simp add: ix dr rp del: replicate_Suc)
qed

theorem shared_attempt_counter_witness:
  "get_with_retries ''u'' None default_max_retries
     (world0 [Inr (r429 None), Inr (r429 (Some ''7'')), Inr r503, Inr r503, Inr r503, Inr r200]) =
   Some (Inr r503, \<lparr>script = [Inr r200], requests = replicate 5 (''u'', None),
                    sleeps = [3, 7, 4, 8], os_limit = ex_os_limit\<rparr>)"
  using shared_attempt_counter [of "[r429 None, r429 (Some ''7'')]" "[3, 7]" "[r503, r503, r503]"
      default_max_retries
      "world0 [Inr (r429 None), Inr (r429 (Some ''7'')), Inr r503, Inr r503, Inr r503, Inr r200]"
      "[Inr r200]" "''u''" None]
    world0_allowed [of "[Inr (r429 None), Inr (r429 (Some ''7'')), Inr r503, Inr r503, Inr r503,
      Inr r200]"]
  by (simp add: world0_def r503_def r429_def retry_after_def py_int_3 py_int_7 transient_def
      default_max_retries_def upt_rec numeral_eq_Suc)

section \<open>Properties of the paginator and the fetchers\<close>

lemma tails_while_length: "t \<in> set (tails_while p s) \<Longrightarrow> length t \<le> length s"
  by (induction s) (auto split: if_splits)

lemma ends_link_regex: "t \<in> set (ends link_regex s) \<Longrightarrow> length t + 3 \<le> length s"
  by (auto simp: link_regex_def seqs_def chr_def cls_plus_def split: list.splits if_splits
      dest!: tails_while_length)

lemma re_search_link: "re_search link_regex s = Some m \<Longrightarrow> 3 \<le> length m"
proof (induction s)
  case Nil
  have "ends link_regex [] = []"
    using ends_link_regex [of _ "[]"] by (cases "ends link_regex []") auto
  with Nil show ?case by (simp add: re_match_def)
next
  case (Cons c cs)
  show ?case
  proof (cases "re_match link_regex (c # cs)")
    case None
    with Cons show ?thesis by simp
  next
    case (Some t)
    then have "t \<in> set (ends link_regex (c # cs))"
      by (auto simp: re_match_def split: list.splits)
    from ends_link_regex [OF this] Some Cons.prems show ?thesis by auto
  qed
qed

lemma group_nonempty: "3 \<le> length m \<Longrightarrow> butlast (tl m) \<noteq> []"
proof -
  assume "3 \<le> length m"
  moreover have "length (butlast (tl m)) = length m - 2" by simp
  ultimately have "0 < length (butlast (tl m))" by simp
  then show ?thesis by blast
qed

lemma first_next_nonempty: "first_next parts = Some u \<Longrightarrow> u \<noteq> []"
proof (induction parts)
  case Nil
  then show ?case by simp
next
  case (Cons part parts)
  then show ?case
    by (auto split: if_splits option.splits dest!: re_search_link group_nonempty)
qed

lemma next_link_nonempty: "next_link_from_headers h = Some u \<Longrightarrow> u \<noteq> []"
  by (simp add: next_link_from_headers_def first_next_nonempty)

lemma for_items_append:
  "for_items f acc (xs @ ys) =
     (case for_items f acc xs of
        Inl e \<Rightarrow> Inl e
      | Inr (acc', brk) \<Rightarrow> if brk then Inr (acc', True) else for_items f acc' ys)"
  by (induction xs arbitrary: acc) (auto split: sum.splits)

lemma fetch_good_page:
  "script w = Inr p # rest \<Longrightarrow> good_page p \<Longrightarrow>
   get_with_retries u ps m w = Some (Inr p, issue u ps rest w)"
  by (simp add: get_with_retries_def good_page_def loop_other)

lemma page_step:
  assumes "script w = Inr p # rest" and "good_page p" and "u \<noteq> []"
  shows "for_paginate f acc (Some u) ps w =
     (case for_items f acc (items_of p) of
        Inl e \<Rightarrow> Some (Inl e, issue u ps rest w)
      | Inr (acc', brk) \<Rightarrow>
          if brk then Some (Inr acc', issue u ps rest w)
          else for_paginate f acc' (next_link_from_headers (headers p)) None (issue u ps rest w))"
  using assms(2,3)
  by (subst for_paginate.simps)
     (auto simp: fetch_good_page [OF assms(1,2)] good_page_def items_of_def split: sum.splits)

lemma pages_no_break:
  assumes "list_all2 (\<lambda>p u. good_page p \<and> next_link_from_headers (headers p) = Some u) pages us"
      and "script w = map Inr pages @ rest"
      and "url \<noteq> []"
      and "for_items f acc (concat (map items_of pages)) = Inr (acc', False)"
  shows "for_paginate f acc (Some url) ps w =
     for_paginate f acc' (Some (last (url # us))) (if pages = [] then ps else None)
       (w\<lparr>script := rest,
          requests := requests w @ butlast ((url, ps) # map (\<lambda>u. (u, None)) us)\<rparr>)"
  using assms
proof (induction pages us arbitrary: url ps acc w rule: list_all2_induct)
  case Nil
  then show ?case by (cases w) simp
next
  case (Cons p pages u us)
  from Cons.prems(3) obtain acc1 where
    a1: "for_items f acc (items_of p) = Inr (acc1, False)" and
    a2: "for_items f acc1 (concat (map items_of pages)) = Inr (acc', False)"
    by (auto simp: for_items_append split: sum.splits if_splits)
  let ?w = "issue url ps (map Inr pages @ rest) w"
  have sc: "script w = Inr p # (map Inr pages @ rest)" using Cons.prems(1) by simp
  have gp: "good_page p" and nl: "next_link_from_headers (headers p) = Some u"
    using Cons.hyps(1) by simp_all
  have st: "for_paginate f acc (Some url) ps w = for_paginate f acc1 (Some u) None ?w"
    by (simp add: page_step [OF sc gp Cons.prems(2)] a1 nl)
  have "script ?w = map Inr pages @ rest" by (simp add: issue_def)
  from Cons.IH [OF this next_link_nonempty [OF nl] a2, of None]
  show ?case unfolding st by (simp add: issue_def)
qed

lemma for_items_collect:
  "for_items (\<lambda>acc item. Inr (acc @ [item], False)) acc xs = Inr (acc @ xs, False)"
  by (induction xs arbitrary: acc) auto

text \<open>
  Claim C4. When the pages of the script are all accepted, every page but the last carries a
  next link and the last carries none, the generator run to its end yields the
  concatenation of the pages' items (the elements of a list body in their order, any other
  body as one item), page after page. The first request carries the URL and the query
  parameters given; each further request carries the next link of the page before it, as
  extracted, and no parameters. Nothing beyond the pages is read from the script.
\<close>

theorem paginate_concat:
  assumes "\<forall>p\<in>set pages. good_page p"
      and "map (\<lambda>p. next_link_from_headers (headers p)) pages = map Some us @ [None]"
      and "script w = map Inr pages @ rest"
      and "url \<noteq> []"
  shows "paginate url ps w =
     Some (Inr (concat (map items_of pages)),
           w\<lparr>script := rest,
             requests := requests w @ (url, ps) # map (\<lambda>u. (u, None)) us\<rparr>)"
proof -
  let ?f = "\<lambda>acc item. Inr (acc @ [item], False) :: error + (json list \<times> bool)"
  from assms(2) have ne: "pages \<noteq> []" by auto
  define pre p where "pre = butlast pages" and "p = last pages"
  have pg: "pages = pre @ [p]" using ne by (simp add: pre_def p_def)
  have m1: "map (\<lambda>p. next_link_from_headers (headers p)) pre = map Some us"
    and m2: "next_link_from_headers (headers p) = None"
    using assms(2) unfolding pg by simp_all
  have len: "length pre = length us" using m1 by (metis length_map)
  have chain: "list_all2 (\<lambda>p u. good_page p \<and> next_link_from_headers (headers p) = Some u) pre us"
    unfolding list_all2_conv_all_nth
  proof (intro conjI allI impI)
    show "length pre = length us" by (rule len)
  next
    fix i assume i: "i < length pre"
    then show "good_page (pre ! i)" using assms(1) pg by (simp add: nth_mem)
  next
    fix i assume i: "i < length pre"
    have "map (\<lambda>p. next_link_from_headers (headers p)) pre ! i = map Some us ! i"
      using m1 by simp
    with i len show "next_link_from_headers (headers (pre ! i)) = Some (us ! i)" by simp
  qed
  have gp: "good_page p" using assms(1) pg by simp
  let ?w = "w\<lparr>script := Inr p # rest,
          requests := requests w @ butlast ((url, ps) # map (\<lambda>u. (u, None)) us)\<rparr>"
  have sc: "script w = map Inr pre @ (Inr p # rest)" using assms(3) pg by simp
  have it: "for_items ?f [] (concat (map items_of pre)) = Inr (concat (map items_of pre), False)"
    using for_items_collect [of "[]"] by simp
  have a: "for_paginate ?f [] (Some url) ps w =
      for_paginate ?f (concat (map items_of pre)) (Some (last (url # us)))
        (if pre = [] then ps else None) ?w"
    by (rule pages_no_break [OF chain sc assms(4) it])
  have lne: "last (url # us) \<noteq> []"
  proof (cases us rule: rev_cases)
    case Nil
    then show ?thesis using assms(4) by simp
  next
    case (snoc us' u)
    with chain len have "next_link_from_headers (headers (last pre)) = Some u"
      by (cases pre rule: rev_cases) (auto simp: list_all2_append)
    from next_link_nonempty [OF this] snoc show ?thesis by simp
  qed
  define u' ps' w' where "u' = last (url # us)" and "ps' = (if pre = [] then ps else None)"
    and "w' = ?w"
  have sc2: "script w' = Inr p # rest" by (simp add: w'_def)
  have "for_paginate ?f (concat (map items_of pre)) (Some u') ps' w' =
      (case for_items ?f (concat (map items_of pre)) (items_of p) of
         Inl e \<Rightarrow> Some (Inl e, issue u' ps' rest w')
       | Inr (acc', brk) \<Rightarrow>
           if brk then Some (Inr acc', issue u' ps' rest w')
           else for_paginate ?f acc' (next_link_from_headers (headers p)) None
                  (issue u' ps' rest w'))"
    using lne unfolding u'_def by (intro page_step [OF sc2 gp])
  also have "\<dots> = Some (Inr (concat (map items_of pre) @ items_of p), issue u' ps' rest w')"
    by (simp add: for_items_collect m2 for_paginate.simps [of _ _ None])
  finally have b: "for_paginate ?f (concat (map items_of pre)) (Some (last (url # us)))
        (if pre = [] then ps else None) ?w =
      Some (Inr (concat (map items_of pre) @ items_of p),
            issue (last (url # us)) (if pre = [] then ps else None) rest ?w)"
    unfolding u'_def ps'_def w'_def .
  have rq: "butlast ((url, ps) # map (\<lambda>u. (u, None)) us) @
       [(last (url # us), if pre = [] then ps else None)] = (url, ps) # map (\<lambda>u. (u, None)) us"
  proof (cases us rule: rev_cases)
    case Nil
    with len show ?thesis by simp
  next
    case (snoc us' u)
    with len have "pre \<noteq> []" by auto
    with snoc show ?thesis by simp
  qed
  show ?thesis
    unfolding paginate_def a b using rq by (simp add: issue_def pg)
qed

lemma ex_link_next:
  "next_link_from_headers (headers (ex_page (Some ex_link) d)) = Some ''https://x/p2''"
  by (simp add: next_link_from_headers_def link_header_def ex_page_def ex_link_def rel_next_def
      link_regex_def seqs_def chr_def cls_plus_def re_match_def)

lemma ex_no_link:
  "next_link_from_headers (headers (ex_page None d)) = None"
  by (simp add: next_link_from_headers_def link_header_def ex_page_def rel_next_def)

lemma ex_good_page: "good_page (ex_page l d)"
  by (simp add: good_page_def ex_page_def ok_def transient_def)

lemma ex_items: "items_of (ex_page l (JList xs)) = xs" "items_of (ex_page l (JObj kvs)) = [JObj kvs]"
  by (simp_all add: items_of_def ex_page_def page_items_def)

theorem paginate_concat_witness:
  "paginate ''https://x/p1'' (Some [(''per_page'', ''100'')])
     (world0 [Inr (ex_page (Some ex_link) (JList [JInt 1, JInt 2])),
              Inr (ex_page None (JObj [(''id'', JInt 3)]))]) =
   Some (Inr [JInt 1, JInt 2, JObj [(''id'', JInt 3)]],
         \<lparr>script = [],
          requests = [(''https://x/p1'', Some [(''per_page'', ''100'')]), (''https://x/p2'', None)],
          sleeps = [], os_limit = ex_os_limit\<rparr>)"
  using paginate_concat [of "[ex_page (Some ex_link) (JList [JInt 1, JInt 2]),
        ex_page None (JObj [(''id'', JInt 3)])]" "[''https://x/p2'']"
      "world0 [Inr (ex_page (Some ex_link) (JList [JInt 1, JInt 2])),
              Inr (ex_page None (JObj [(''id'', JInt 3)]))]" "[]" "''https://x/p1''"
      "Some [(''per_page'', ''100'')]"]
  by (simp add: ex_link_next ex_no_link ex_good_page ex_items world0_def)

lemma chain_of_links:
  assumes "\<forall>p\<in>set pre. good_page p"
      and "map (\<lambda>p. next_link_from_headers (headers p)) pre = map Some us"
  shows "list_all2 (\<lambda>p u. good_page p \<and> next_link_from_headers (headers p) = Some u) pre us"
  unfolding list_all2_conv_all_nth
proof (intro conjI allI impI)
  show len: "length pre = length us" using assms(2) by (metis length_map)
  fix i assume i: "i < length pre"
  then show "good_page (pre ! i)" using assms(1) by (simp add: nth_mem)
  have "map (\<lambda>p. next_link_from_headers (headers p)) pre ! i = map Some us ! i"
    using assms(2) by simp
  with i len show "next_link_from_headers (headers (pre ! i)) = Some (us ! i)" by simp
qed

lemma course_scan_below:
  "\<forall>x\<in>set xs. course_ok x \<Longrightarrow>
   int (length acc + length (filter (course_matches ts) xs)) < mx \<Longrightarrow>
   for_items (course_step ts mx) acc xs = Inr (acc @ filter (course_matches ts) xs, False)"
proof (induction xs arbitrary: acc)
  case Nil
  then show ?case by simp
next
  case (Cons x xs)
  from Cons.prems(1) obtain t where t: "term_name x = Inr t"
    by (auto simp: course_ok_def split: sum.splits)
  show ?case
  proof (cases "course_matches ts x")
    case True
    with t have st: "course_step ts mx acc x = Inr (acc @ [x], False)"
      using Cons.prems(2) by (simp add: course_step_def course_matches_def)
    from Cons.IH [of "acc @ [x]"] Cons.prems True show ?thesis by (simp add: st)
  next
    case False
    with t have st: "course_step ts mx acc x = Inr (acc, False)"
      using Cons.prems(2) by (simp add: course_step_def course_matches_def)
    from Cons.IH [of acc] Cons.prems False show ?thesis by (simp add: st)
  qed
qed

lemma course_scan_hit:
  "course_matches ts c \<Longrightarrow> int (length acc) + 1 = mx \<Longrightarrow>
   for_items (course_step ts mx) acc (c # zs) = Inr (acc @ [c], True)"
  by (auto simp: course_step_def course_matches_def split: sum.splits)

text \<open>
  Claim C1, as amended. The limit is checked after every record, not after every page. When
  the record \<open>c\<close> of page \<open>p\<close> is the one that brings the number of matches up to
  \<open>max_courses\<close>, \<^verbatim>\<open>list_courses_generic\<close> returns the matches up to and including \<open>c\<close>: the
  records \<open>zs\<close> that follow \<open>c\<close> on its page are not filtered (nothing is asked of them), and
  no request is issued after the one that fetched \<open>p\<close>, whatever next link \<open>p\<close> carries.
\<close>

theorem limit_checked_per_record:
  assumes "\<forall>q\<in>set (pre @ [p]). good_page q"
      and "map (\<lambda>q. next_link_from_headers (headers q)) pre = map Some us"
      and "items_of p = ys @ c # zs"
      and "\<forall>x\<in>set (concat (map items_of pre) @ ys). course_ok x"
      and "course_matches term_sub c"
      and "int (length (filter (course_matches term_sub) (concat (map items_of pre) @ ys))) + 1
             = max_courses"
      and "script w = map Inr pre @ Inr p # rest"
      and "base_url @ endpoint \<noteq> []"
  shows "list_courses_generic base_url endpoint term_sub max_courses w =
     Some (Inr (filter (course_matches term_sub) (concat (map items_of pre) @ ys) @ [c]),
           w\<lparr>script := rest,
             requests := requests w @
               (base_url @ endpoint, Some course_params) # map (\<lambda>u. (u, None)) us\<rparr>)"
proof -
  let ?f = "course_step term_sub max_courses"
  let ?P = "course_matches term_sub"
  let ?url = "base_url @ endpoint"
  let ?xs = "concat (map items_of pre)"
  have chain: "list_all2 (\<lambda>p u. good_page p \<and> next_link_from_headers (headers p) = Some u) pre us"
    using assms(1,2) by (intro chain_of_links) simp_all
  have len: "length pre = length us" using chain by (rule list_all2_lengthD)
  have gp: "good_page p" using assms(1) by simp
  have below: "for_items ?f [] (?xs @ ys) = Inr (filter ?P (?xs @ ys), False)"
    using course_scan_below [of "?xs @ ys" "[]" term_sub max_courses] assms(4,6) by simp
  then have it1: "for_items ?f [] ?xs = Inr (filter ?P ?xs, False)"
    and it2: "for_items ?f (filter ?P ?xs) ys = Inr (filter ?P (?xs @ ys), False)"
    using course_scan_below [of ?xs "[]" term_sub max_courses] assms(4,6)
    by (auto simp: for_items_append)
  have it3: "for_items ?f (filter ?P ?xs) (items_of p) = Inr (filter ?P (?xs @ ys) @ [c], True)"
    unfolding assms(3) for_items_append [of _ _ ys] it2
    using course_scan_hit [OF assms(5), of "filter ?P (?xs @ ys)" max_courses zs] assms(6)
    by simp
  define u' ps' w' where "u' = last (?url # us)"
    and "ps' = (if pre = [] then Some course_params else None)"
    and "w' = w\<lparr>script := Inr p # rest,
          requests := requests w @ butlast ((?url, Some course_params) # map (\<lambda>u. (u, None)) us)\<rparr>"
  have sc: "script w = map Inr pre @ (Inr p # rest)" using assms(7) by simp
  have a: "for_paginate ?f [] (Some ?url) (Some course_params) w =
      for_paginate ?f (filter ?P ?xs) (Some u') ps' w'"
    unfolding u'_def ps'_def w'_def by (rule pages_no_break [OF chain sc assms(8) it1])
  have lne: "u' \<noteq> []"
  proof (cases us rule: rev_cases)
    case Nil
    then show ?thesis using assms(8) by (simp add: u'_def)
  next
    case (snoc us' u)
    with chain len have "next_link_from_headers (headers (last pre)) = Some u"
      by (cases pre rule: rev_cases) (auto simp: list_all2_append)
    from next_link_nonempty [OF this] snoc show ?thesis by (simp add: u'_def)
  qed
  have sc2: "script w' = Inr p # rest" by (simp add: w'_def)
  have b: "for_paginate ?f (filter ?P ?xs) (Some u') ps' w' =
      Some (Inr (filter ?P (?xs @ ys) @ [c]), issue u' ps' rest w')"
    unfolding page_step [OF sc2 gp lne] it3 by simp
  have rq: "butlast ((?url, Some course_params) # map (\<lambda>u. (u, None)) us) @ [(u', ps')] =
      (?url, Some course_params) # map (\<lambda>u. (u, None)) us"
  proof (cases us rule: rev_cases)
    case Nil
    with len show ?thesis by (simp add: u'_def ps'_def)
  next
    case (snoc us' u)
    with len have "pre \<noteq> []" by auto
    with snoc show ?thesis by (simp add: u'_def ps'_def)
  qed
  show ?thesis
    unfolding list_courses_generic_def a b using rq by (simp add: issue_def w'_def)
qed

lemma ex_course_term: "term_name (ex_course i t) = Inr t"
  by (simp add: term_name_def ex_course_def)

lemma ex_spring: "course_matches ''spring'' (ex_course i ''Spring 2025'')"
  by (simp add: course_matches_def ex_course_term lower_def lower_char_def char_of_def bit_iff_odd)

lemma ex_fall: "\<not> course_matches ''spring'' (ex_course i ''Fall 2024'')"
  by (simp add: course_matches_def ex_course_term lower_def lower_char_def char_of_def bit_iff_odd)

lemma ex_course_ok: "course_ok (ex_course i t)"
  by (simp add: course_ok_def ex_course_term)

theorem limit_checked_per_record_witness:
  "list_courses_generic ''https://x'' ''/api/v1/courses'' ''spring'' 2
     (world0 [Inr (ex_page (Some ex_link)
                     (JList [ex_course 1 ''Fall 2024'', ex_course 2 ''Spring 2025''])),
              Inr (ex_page (Some ex_link)
                     (JList [ex_course 3 ''Spring 2025'', ex_course 4 ''Spring 2025'', JInt 5])),
              Inr r503]) =
   Some (Inr [ex_course 2 ''Spring 2025'', ex_course 3 ''Spring 2025''],
         \<lparr>script = [Inr r503],
          requests = [(''https://x/api/v1/courses'', Some course_params), (''https://x/p2'', None)],
          sleeps = [], os_limit = ex_os_limit\<rparr>)"
  using limit_checked_per_record [of
      "[ex_page (Some ex_link) (JList [ex_course 1 ''Fall 2024'', ex_course 2 ''Spring 2025''])]"
      "ex_page (Some ex_link)
         (JList [ex_course 3 ''Spring 2025'', ex_course 4 ''Spring 2025'', JInt 5])"
      "[''https://x/p2'']" "[]" "ex_course 3 ''Spring 2025''"
      "[ex_course 4 ''Spring 2025'', JInt 5]" "''spring''" 2
      "world0 [Inr (ex_page (Some ex_link)
                     (JList [ex_course 1 ''Fall 2024'', ex_course 2 ''Spring 2025''])),
              Inr (ex_page (Some ex_link)
                     (JList [ex_course 3 ''Spring 2025'', ex_course 4 ''Spring 2025'', JInt 5])),
              Inr r503]"
      "[Inr r503]" "''https://x''" "''/api/v1/courses''"]
  by (simp add: ex_good_page ex_link_next ex_items ex_course_ok ex_spring ex_fall world0_def)

text \<open>
  Claim C1 as stated fails: with a limit of 2 and one page of three matching courses, the
  loop stops at the second record, in the middle of the page; the third course matches
  too and is not in the result, as it would be had the page been filtered to its end
  before the check.
\<close>

theorem limit_not_per_page_counterexample:
  "list_courses_generic ''https://x'' ''/api/v1/courses'' ''spring'' 2
     (world0 [Inr (ex_page None
        (JList [ex_course 1 ''Spring 2025'', ex_course 2 ''Spring 2025'',
                ex_course 3 ''Spring 2025'']))]) =
   Some (Inr [ex_course 1 ''Spring 2025'', ex_course 2 ''Spring 2025''],
         \<lparr>script = [], requests = [(''https://x/api/v1/courses'', Some course_params)],
          sleeps = [], os_limit = ex_os_limit\<rparr>) \<and>
   course_matches ''spring'' (ex_course 3 ''Spring 2025'')"
proof -
  let ?p = "ex_page None
        (JList [ex_course 1 ''Spring 2025'', ex_course 2 ''Spring 2025'',
                ex_course 3 ''Spring 2025''])"
  have sc: "script (world0 [Inr ?p]) = Inr ?p # []" by (simp add: world0_def)
  have ne: "''https://x'' @ ''/api/v1/courses'' \<noteq> []" by simp
  have st: "\<And>acc i. course_step ''spring'' 2 acc (ex_course i ''Spring 2025'') =
      Inr (acc @ [ex_course i ''Spring 2025''], 2 \<le> int (length acc) + 1)"
    using ex_spring by (simp add: course_step_def course_matches_def ex_course_term)
  show ?thesis
    unfolding list_courses_generic_def page_step [OF sc ex_good_page ne]
    by (simp add: ex_items st ex_spring issue_def world0_def)
qed

text \<open>
  Claim C7. The two endpoints are tried in a fixed order, which \<open>source\<close> turns around. When
  the first endpoint returns an empty list or raises an \<^verbatim>\<open>HTTPError\<close> of status 500 or more,
  the second endpoint is tried, from the world the first attempt left; any other
  exception of the first endpoint leaves the function at once, and a non-empty result is
  returned at once.
\<close>

theorem endpoint_fallback:
  assumes "list_courses_generic base_url (hd (endpoints_for source)) term_sub max_courses w =
             Some (r1, w1)"
  shows "endpoints_for source =
           (if source = ''courses'' then [''/api/v1/courses'', ''/api/v1/users/self/courses'']
            else [''/api/v1/users/self/courses'', ''/api/v1/courses'']) \<and>
         list_my_courses_for_term base_url term_sub max_courses source w =
           (if falls_back r1
            then (case list_courses_generic base_url (endpoints_for source ! 1) term_sub
                         max_courses w1 of
                    None \<Rightarrow> None
                  | Some (r2, w2) \<Rightarrow> if falls_back r2 then Some (Inr [], w2) else Some (r2, w2))
            else Some (r1, w1))"
proof -
  obtain e1 e2 where es: "endpoints_for source = [e1, e2]"
    by (cases "source = ''courses''") (auto simp: endpoints_for_def)
  have 1: "list_courses_generic base_url e1 term_sub max_courses w = Some (r1, w1)"
    using assms es by simp
  have 2: "try_endpoints base_url term_sub max_courses [e2] w1 =
      (case list_courses_generic base_url e2 term_sub max_courses w1 of
         None \<Rightarrow> None
       | Some (r2, w2) \<Rightarrow> if falls_back r2 then Some (Inr [], w2) else Some (r2, w2))"
    by (auto simp: falls_back_def split: option.splits sum.splits error.splits)
  have 3: "try_endpoints base_url term_sub max_courses [e1, e2] w =
      (if falls_back r1 then try_endpoints base_url term_sub max_courses [e2] w1
       else Some (r1, w1))"
    using 1 by (auto simp: falls_back_def split: sum.splits error.splits)
  show ?thesis
    unfolding list_my_courses_for_term_def es 3 2
    using es by (auto simp: endpoints_for_def split: if_splits)
qed

theorem endpoint_fallback_witness:
  "list_my_courses_for_term ''https://x'' ''spring'' 2 ''courses''
     (world0 (replicate 5 (Inr r503) @ [Inr (ex_page None (JList [ex_course 7 ''Spring 2025'']))])) =
   Some (Inr [ex_course 7 ''Spring 2025''],
         \<lparr>script = [],
          requests = replicate 5 (''https://x/api/v1/courses'', Some course_params) @
                     [(''https://x/api/v1/users/self/courses'', Some course_params)],
          sleeps = [1, 2, 4, 8], os_limit = ex_os_limit\<rparr>)"
proof -
  let ?p = "ex_page None (JList [ex_course 7 ''Spring 2025''])"
  let ?w = "world0 (replicate 5 (Inr r503) @ [Inr ?p])"
  let ?u1 = "''https://x/api/v1/courses''"
  let ?u2 = "''https://x/api/v1/users/self/courses''"
  let ?w1 = "\<lparr>script = [Inr ?p], requests = replicate 5 (?u1, Some course_params),
             sleeps = [1, 2, 4, 8], os_limit = ex_os_limit\<rparr>"
  have tr: "\<forall>r\<in>set (replicate 5 r503). transient (status_code r)"
    by (simp add: r503_def transient_def)
  have sc: "script ?w = map Inr (replicate 5 r503) @ [Inr ?p]" by (simp add: world0_def)
  have g: "get_with_retries ?u1 (Some course_params) default_max_retries ?w = Some (Inr r503, ?w1)"
    unfolding get_with_retries_def default_max_retries_def
      loop_transients [OF tr sc _ world0_allowed, of 4 ?u1 "Some course_params" 0, simplified]
    by (simp add: world0_def upt_rec numeral_eq_Suc)
  have nok: "\<not> ok r503" "status_code r503 = 503" by (simp_all add: ok_def r503_def)
  have h1: "list_courses_generic ''https://x'' (hd (endpoints_for ''courses'')) ''spring'' 2 ?w =
      Some (Inl (HTTPError 503), ?w1)"
    unfolding list_courses_generic_def endpoints_for_def
    by (subst for_paginate.simps) (simp add: g nok)
  have sc1: "script ?w1 = Inr ?p # []" by simp
  have ne: "''https://x'' @ ''/api/v1/users/self/courses'' \<noteq> []" by simp
  have st: "\<And>acc i. course_step ''spring'' 2 acc (ex_course i ''Spring 2025'') =
      Inr (acc @ [ex_course i ''Spring 2025''], 2 \<le> int (length acc) + 1)"
    using ex_spring by (simp add: course_step_def course_matches_def ex_course_term)
  have h2: "list_courses_generic ''https://x'' (endpoints_for ''courses'' ! 1) ''spring'' 2 ?w1 =
      Some (Inr [ex_course 7 ''Spring 2025''],
            \<lparr>script = [], requests = replicate 5 (?u1, Some course_params) @
                       [(?u2, Some course_params)], sleeps = [1, 2, 4, 8],
             os_limit = ex_os_limit\<rparr>)"
    unfolding list_courses_generic_def endpoints_for_def
    using page_step [OF sc1 ex_good_page ne, of "course_step ''spring'' 2" "[]" "Some course_params"]
    by (simp add: ex_items st ex_no_link issue_def for_paginate.simps [of _ _ None])
  from endpoint_fallback [OF h1] show ?thesis
    unfolding h2 by (simp add: falls_back_def)
qed

section \<open>Properties of the sorter and the renderers\<close>

lemma assignment_key_dict:
  "is_dict a \<Longrightarrow> assignment_key fromiso a = Inr (key_of fromiso a)"
  by (cases a) (auto simp: is_dict_def assignment_key_def key_of_def due_of_def split: option.splits)

lemma try_map_total:
  "\<forall>x\<in>set xs. f x = Inr (g x) \<Longrightarrow> try_map f xs = Inr (map g xs)"
  by (induction xs) auto

lemma insort_decorated:
  "insort_key fst (f x, x) (map (\<lambda>y. (f y, y)) ys) = map (\<lambda>y. (f y, y)) (insort_key f x ys)"
  by (induction ys) auto

lemma sort_decorated:
  "sort_key fst (map (\<lambda>y. (f y, y)) xs) = map (\<lambda>y. (f y, y)) (sort_key f xs)"
  by (induction xs) (auto simp: insort_decorated)

lemma sort_assignments_dicts:
  assumes "\<forall>a\<in>set as. is_dict a"
  shows "sort_assignments fromiso as = Inr (sort_key (key_of fromiso) as)"
proof -
  have "try_map (assignment_key fromiso) as = Inr (map (key_of fromiso) as)"
    using assms by (intro try_map_total) (simp add: assignment_key_dict)
  moreover have "zip (map (key_of fromiso) as) as = map (\<lambda>y. (key_of fromiso y, y)) as"
    by (induction as) auto
  ultimately show ?thesis
    by (simp add: sort_assignments_def sort_decorated comp_def)
qed

lemma sorted_split:
  assumes "sorted (map k xs)" and "\<And>x y. P x \<Longrightarrow> \<not> P y \<Longrightarrow> k x < k y"
  shows "xs = filter P xs @ filter (\<lambda>x. \<not> P x) xs"
  using assms(1)
proof (induction xs)
  case Nil
  then show ?case by simp
next
  case (Cons x xs)
  show ?case
  proof (cases "P x")
    case True
    with Cons show ?thesis by simp
  next
    case False
    have "\<forall>y\<in>set xs. \<not> P y"
    proof
      fix y assume y: "y \<in> set xs"
      with Cons.prems have "k x \<le> k y" by auto
      with assms(2) [of y x] False show "\<not> P y" by auto
    qed
    then have "filter P xs = []" "filter (\<lambda>x. \<not> P x) xs = xs" by (auto simp: filter_empty_conv filter_id_conv)
    with False show ?thesis by simp
  qed
qed

lemma key_of_dated:
  "due_of fromiso a = Some t \<Longrightarrow> key_of fromiso a = (0, t)"
  "due_of fromiso a = None \<Longrightarrow> key_of fromiso a = (1, datetime_max)"
  by (simp_all add: key_of_def)

lemma key_of_inj: "key_of fromiso a = key_of fromiso b \<longleftrightarrow> due_of fromiso a = due_of fromiso b"
  by (auto simp: key_of_def split: option.splits)

lemma sorted_dated:
  "sorted (map (key_of fromiso) xs) \<Longrightarrow> sorted (List.map_filter (due_of fromiso) xs)"
proof (induction xs)
  case Nil
  then show ?case by (simp add: List.map_filter_simps)
next
  case (Cons x xs)
  then have ih: "sorted (List.map_filter (due_of fromiso) xs)" by simp
  show ?case
  proof (cases "due_of fromiso x")
    case None
    with ih show ?thesis by (simp add: List.map_filter_simps)
  next
    case (Some t)
    have "\<forall>u\<in>set (List.map_filter (due_of fromiso) xs). t \<le> u"
    proof
      fix u assume "u \<in> set (List.map_filter (due_of fromiso) xs)"
      then obtain y where y: "y \<in> set xs" "due_of fromiso y = Some u"
        by (auto simp: List.map_filter_def)
      with Cons.prems have "key_of fromiso x \<le> key_of fromiso y" by auto
      with Some y show "t \<le> u" by (simp add: key_of_dated less_eq_prod_def)
    qed
    with ih Some show ?thesis by (simp add: List.map_filter_simps)
  qed
qed

text \<open>
  Claim C5. On every list of assignments (dicts), \<^verbatim>\<open>sort_assignments\<close> returns the list sorted
  stably by the key \<open>(0, due)\<close> for an assignment with a due instant and
  \<open>(1, datetime_max)\<close> for one without. The result is a permutation of the input; the
  assignments with one and the same due instant, and those without any, keep their
  order (stability); every dated assignment stands before every undated one; and the due
  instants of the dated ones, read off in the order of the result, do not decrease.
\<close>

theorem sort_assignments_stable_sorted:
  assumes "\<forall>a\<in>set as. is_dict a"
  shows "\<exists>out. sort_assignments fromiso as = Inr out \<and>
           out = sort_key (key_of fromiso) as \<and>
           mset out = mset as \<and>
           (\<forall>d. filter (\<lambda>a. due_of fromiso a = d) out = filter (\<lambda>a. due_of fromiso a = d) as) \<and>
           out = filter (\<lambda>a. due_of fromiso a \<noteq> None) out @ filter (\<lambda>a. due_of fromiso a = None) as \<and>
           sorted (List.map_filter (due_of fromiso) out)"
proof -
  let ?k = "key_of fromiso"
  let ?out = "sort_key ?k as"
  have srt: "sorted (map ?k ?out)" by (rule sorted_sort_key)
  have stab: "filter (\<lambda>a. due_of fromiso a = d) ?out = filter (\<lambda>a. due_of fromiso a = d) as" for d
  proof (cases "\<exists>b. due_of fromiso b = d")
    case True
    then obtain b where b: "due_of fromiso b = d" ..
    have "filter (\<lambda>a. ?k a = ?k b) ?out = filter (\<lambda>a. ?k a = ?k b) as"
      by (rule sort_key_stable)
    then show ?thesis by (simp add: key_of_inj b)
  next
    case False
    then show ?thesis by (simp add: filter_empty_conv)
  qed
  have "?out = filter (\<lambda>a. due_of fromiso a \<noteq> None) ?out @
      filter (\<lambda>a. \<not> due_of fromiso a \<noteq> None) ?out"
    by (rule sorted_split [OF srt])
       (auto simp: key_of_def less_prod_def split: option.splits)
  then have split: "?out = filter (\<lambda>a. due_of fromiso a \<noteq> None) ?out @
      filter (\<lambda>a. due_of fromiso a = None) as"
    unfolding not_not stab [of None] .
  show ?thesis
    using sort_assignments_dicts [OF assms, of fromiso] stab split sorted_dated [OF srt]
    by (intro exI [of _ ?out] conjI allI) (simp_all only: mset_sort)
qed

lemma ex_due:
  "due_of ex_iso (ex_assignment n (JStr ''2025-03-01T00:00:00Z'')) = Some (2025, 3, 1, 0, 0, 0, 0)"
  "due_of ex_iso (ex_assignment n (JStr ''2025-02-01T00:00:00Z'')) = Some (2025, 2, 1, 0, 0, 0, 0)"
  "due_of ex_iso (ex_assignment n JNull) = None"
  "due_of ex_iso (ex_assignment n (JInt 5)) = None"
  by (simp_all add: due_of_def ex_assignment_def parse_iso8601_def ex_iso_def)

theorem sort_assignments_stable_sorted_witness:
  "sort_assignments ex_iso
     [ex_assignment ''Final'' JNull, ex_assignment ''HW1'' (JStr ''2025-03-01T00:00:00Z''),
      ex_assignment ''Quiz'' (JInt 5), ex_assignment ''HW0'' (JStr ''2025-02-01T00:00:00Z'')] =
   Inr [ex_assignment ''HW0'' (JStr ''2025-02-01T00:00:00Z''),
        ex_assignment ''HW1'' (JStr ''2025-03-01T00:00:00Z''),
        ex_assignment ''Final'' JNull, ex_assignment ''Quiz'' (JInt 5)]"
proof -
  let ?as = "[ex_assignment ''Final'' JNull, ex_assignment ''HW1'' (JStr ''2025-03-01T00:00:00Z''),
      ex_assignment ''Quiz'' (JInt 5), ex_assignment ''HW0'' (JStr ''2025-02-01T00:00:00Z'')]"
  have "\<forall>a\<in>set ?as. is_dict a" by (simp add: is_dict_def ex_assignment_def)
  from sort_assignments_stable_sorted [OF this, of ex_iso]
  have "sort_assignments ex_iso ?as = Inr (sort_key (key_of ex_iso) ?as)" by auto
  then show ?thesis
    by (simp add: key_of_def ex_due datetime_max_def less_eq_prod_def less_prod_def)
qed

lemma str_nat_no_comma: "CHR '','' \<notin> set (str_nat n)"
proof (induction n rule: str_nat.induct)
  case (1 n)
  have d: "\<And>k. k < 10 \<Longrightarrow> digit_char k \<noteq> CHR '',''"
  proof -
    fix k :: nat assume "k < 10"
    then have "k \<in> {0, 1, 2, 3, 4, 5, 6, 7, 8, 9}" by auto
    then show "digit_char k \<noteq> CHR '',''" by (auto simp: digit_char_def)
  qed
  show ?case
  proof (cases "n < 10")
    case True
    then show ?thesis by (subst str_nat.simps) (simp add: d [symmetric])
  next
    case False
    with 1 show ?thesis by (subst str_nat.simps) (simp add: d [symmetric])
  qed
qed

lemma str_int_no_comma: "CHR '','' \<notin> set (str_int i)"
  by (simp add: str_int_def str_nat_no_comma)

lemma format_date_no_comma: "CHR '','' \<notin> set (format_date_only dt)"
  by (auto simp: format_date_only_def zero_pad_def str_nat_no_comma split: option.splits)

lemma replace_comma: "CHR '','' \<notin> set (replace '','' '' '' s)"
  by (induction s) auto

lemma count_comma_0: "CHR '','' \<notin> set s \<Longrightarrow> count_list s CHR '','' = 0"
  by (induction s) auto

lemma try_map_all:
  "try_map f xs = Inr ys \<Longrightarrow> y \<in> set ys \<Longrightarrow> \<exists>x\<in>set xs. f x = Inr y"
  by (induction xs arbitrary: ys) (auto split: sum.splits)

lemma small_not_long: "\<bar>i\<bar> < 10 \<Longrightarrow> \<not> long_int i"
proof -
  assume a: "\<bar>i\<bar> < 10"
  have "(10::int) ^ 1 \<le> 10 ^ 4300" by (rule power_increasing) simp_all
  with a show ?thesis by (simp add: long_int_def del: power_numeral)
qed

lemma format_id_int: "format_id (JInt i) = Inr s \<Longrightarrow> s = str_int i"
  by (simp add: format_id_def split: if_splits)

lemma format_id_1: "format_id (JInt 1) = Inr (str_int 1)"
  by (simp add: format_id_def small_not_long)

lemma csv_row_commas:
  assumes "csv_row fromiso (JInt i) cname a = Inr row"
      and "CHR '','' \<notin> set cname"
  shows "count_list row CHR '','' = 3"
proof -
  from assms(1) obtain d n where
    row: "row = str_int i @ '','' @ cname @ '','' @ replace '','' '' '' n @ '','' @
            format_date_only (parse_iso8601 fromiso d)"
    by (auto simp: csv_row_def due_str_def split: sum.splits dest: format_id_int)
  show ?thesis
    unfolding row
    by (simp add: count_comma_0 assms(2) str_int_no_comma replace_comma format_date_no_comma)
qed

lemma csv_course_commas:
  assumes "csv_course fromiso abc course = Inr rows"
      and "subscript course ''id'' = Inr (JInt i)"
      and "row \<in> set rows"
  shows "count_list row CHR '','' = 3"
proof -
  from assms(1,2) obtain cleaned where
    "try_map (csv_row fromiso (JInt i) (replace '','' '' '' cleaned))
       (assignments_for abc (JInt i)) = Inr rows"
    by (auto simp: csv_course_def split: sum.splits option.splits)
  from try_map_all [OF this assms(3)] obtain a where
    "csv_row fromiso (JInt i) (replace '','' '' '' cleaned) a = Inr row" by auto
  then show ?thesis
    by (rule csv_row_commas) (simp add: replace_comma)
qed

lemma ex_clean1: "clean_course_name (JStr ''Intro to X (Spring 2025)'') = Inr ''Intro to X''"
  by code_simp

lemma ex_clean2: "clean_course_name (JStr ''Intro, to X (Spring 2025)'') = Inr ''Intro, to X''"
  by code_simp

lemma strip_ex: "strip ''HW1'' = ''HW1''" "strip ''Final'' = ''Final''" "strip ''HW, 1'' = ''HW, 1''"
  by (simp_all add: strip_def is_space_def)

lemma date_ex:
  "format_date_only (Some (2025, 3, 1, r)) = ''2025-03-01''"
  "format_date_only (Some (2025, 3, Suc 0, r)) = ''2025-03-01''"
  by (simp_all add: format_date_only_def zero_pad_def str_nat.simps digit_char_def)

lemma date_none: "format_date_only None = ''No due date''"
  by (simp add: format_date_only_def)

lemma str_int_1: "str_int 1 = ''1''"
  by (simp add: str_int_def str_nat.simps digit_char_def)

text \<open>
  Claim C8. For the course \<^verbatim>\<open>{id: 1, name: "Intro to X (Spring 2025)"}\<close> with the assignments
  HW1, due \<^verbatim>\<open>2025-03-01T00:00:00Z\<close>, and Final, without due date, \<^verbatim>\<open>render_text\<close> produces the
  title, an empty line, the header \<^verbatim>\<open>Course: Intro to X (ID: 1)\<close>, the line of HW1 with the date
  \<^verbatim>\<open>2025-03-01\<close>, the line of Final with \<^verbatim>\<open>No due date\<close> and an empty line, in this order, given
  that the library reads \<^verbatim>\<open>2025-03-01T00:00:00+00:00\<close> as midnight of 1 March 2025, UTC. And
  for every assignment whose due date is absent, null, no string, or a string that the
  library does not read, the due date is rendered as \<^verbatim>\<open>No due date\<close>: a value, no exception.
\<close>

theorem render_text_scenario:
  assumes "fromiso ''2025-03-01T00:00:00+00:00'' = Some (2025, 3, 1, 0, 0, 0, 0)"
  shows "render_text fromiso title
           [JObj [(''id'', JInt 1), (''name'', JStr ''Intro to X (Spring 2025)'')]]
           [JInt 1 \<mapsto> [JObj [(''name'', JStr ''HW1''), (''due_at'', JStr ''2025-03-01T00:00:00Z'')],
                        JObj [(''name'', JStr ''Final''), (''due_at'', JNull)]]] =
         Inr (join [CHR 0x0A]
                [title, '''', ''Course: Intro to X (ID: 1)'', ''- \"HW1\" | Due: 2025-03-01'',
                 ''- \"Final\" | Due: No due date'', '''']) \<and>
         (\<forall>a. is_dict a \<longrightarrow>
              (\<forall>s. dict_get a ''due_at'' = Inr (JStr s) \<longrightarrow>
                   fromiso (replace ''Z'' ''+00:00'' s) = None) \<longrightarrow>
              due_str fromiso a = Inr ''No due date'')"
proof (intro conjI allI impI)
  show "render_text fromiso title
           [JObj [(''id'', JInt 1), (''name'', JStr ''Intro to X (Spring 2025)'')]]
           [JInt 1 \<mapsto> [JObj [(''name'', JStr ''HW1''), (''due_at'', JStr ''2025-03-01T00:00:00Z'')],
                        JObj [(''name'', JStr ''Final''), (''due_at'', JNull)]]] =
         Inr (join [CHR 0x0A]
                [title, '''', ''Course: Intro to X (ID: 1)'', ''- \"HW1\" | Due: 2025-03-01'',
                 ''- \"Final\" | Due: No due date'', ''''])"
    by (simp add: render_text_def text_course_def ex_clean1 format_id_1 str_int_1 assignments_for_def
        text_line_def due_str_def assignment_name_def strip_ex parse_iso8601_def assms date_ex
        date_none)
next
  fix a
  assume d: "is_dict a"
    and u: "\<forall>s. dict_get a ''due_at'' = Inr (JStr s) \<longrightarrow> fromiso (replace ''Z'' ''+00:00'' s) = None"
  from d obtain kvs where a: "a = JObj kvs" by (cases a) (auto simp: is_dict_def)
  show "due_str fromiso a = Inr ''No due date''"
  proof (cases "map_of kvs ''due_at''")
    case None
    then show ?thesis by (simp add: a due_str_def parse_iso8601_def date_none)
  next
    case (Some v)
    with u a show ?thesis
      by (cases v) (auto simp: due_str_def parse_iso8601_def date_none)
  qed
qed

theorem render_text_scenario_witness:
  "render_text ex_iso ''Spring 2025 Courses''
           [JObj [(''id'', JInt 1), (''name'', JStr ''Intro to X (Spring 2025)'')]]
           [JInt 1 \<mapsto> [JObj [(''name'', JStr ''HW1''), (''due_at'', JStr ''2025-03-01T00:00:00Z'')],
                        JObj [(''name'', JStr ''Final''), (''due_at'', JNull)]]] =
         Inr (join [CHR 0x0A]
                [''Spring 2025 Courses'', '''', ''Course: Intro to X (ID: 1)'',
                 ''- \"HW1\" | Due: 2025-03-01'', ''- \"Final\" | Due: No due date'', '''']) \<and>
   due_str ex_iso (ex_assignment ''Essay'' (JStr ''next week'')) = Inr ''No due date''"
proof -
  have h: "ex_iso ''2025-03-01T00:00:00+00:00'' = Some (2025, 3, 1, 0, 0, 0, 0)"
    by (simp add: ex_iso_def)
  have r: "replace ''Z'' ''+00:00'' ''next week'' = ''next week''" by simp
  have n: "ex_iso ''next week'' = None" by (simp add: ex_iso_def)
  from render_text_scenario [of ex_iso "''Spring 2025 Courses''", OF h] r n show ?thesis
    by (auto simp: is_dict_def ex_assignment_def)
qed

lemma replace_comma_map: "replace '','' '' '' s = comma_to_space s"
  by (induction s) (auto simp: comma_to_space_def)

lemma try_map_all2:
  "try_map f xs = Inr ys \<Longrightarrow> list_all2 (\<lambda>x y. f x = Inr y) xs ys"
  by (induction xs arbitrary: ys) (auto split: sum.splits)

lemma split_on_absent: "sep \<notin> set x \<Longrightarrow> split_on sep x = [x]"
  by (induction x) auto

lemma split_on_append:
  "sep \<notin> set x \<Longrightarrow> split_on sep (x @ sep # rest) = x # split_on sep rest"
  by (induction x) auto

lemma split_join:
  "rows \<noteq> [] \<Longrightarrow> \<forall>r\<in>set rows. sep \<notin> set r \<Longrightarrow> split_on sep (join [sep] rows) = rows"
proof (induction rows)
  case Nil
  then show ?case by simp
next
  case (Cons x rows)
  show ?case
  proof (cases rows)
    case Nil
    with Cons.prems show ?thesis by (simp add: split_on_absent)
  next
    case (Cons y ys)
    with Cons.IH Cons.prems have "split_on sep (join [sep] (y # ys)) = y # ys" by simp
    with Cons Cons.prems show ?thesis by (simp add: split_on_append)
  qed
qed

lemma csv_row_shape:
  assumes "csv_row fromiso (JInt i) (replace '','' '' '' cleaned) a = Inr row"
  shows "csv_row_ok fromiso i cleaned a row"
  using assms
  by (auto simp: csv_row_def csv_row_ok_def replace_comma_map split: sum.splits
      dest: format_id_int)

lemma csv_course_shape:
  assumes "csv_course fromiso abc c = Inr blk"
      and "subscript c ''id'' = Inr (JInt i)"
  shows "csv_block_ok fromiso abc c blk"
proof -
  from assms obtain name cleaned where
    n: "dict_get c ''name'' = Inr name" "clean_course_name name = Inr cleaned" and
    t: "try_map (csv_row fromiso (JInt i) (replace '','' '' '' cleaned))
          (assignments_for abc (JInt i)) = Inr blk"
    by (auto simp: csv_course_def split: sum.splits option.splits)
  have "list_all2 (csv_row_ok fromiso i cleaned) (assignments_for abc (JInt i)) blk"
    using try_map_all2 [OF t] by (rule list_all2_mono) (rule csv_row_shape)
  with n assms(2) show ?thesis unfolding csv_block_ok_def by blast
qed

text \<open>
  Claim C10, as amended. Whenever \<^verbatim>\<open>render_csv\<close> returns on courses whose ids are integers, its
  output is the list \<^verbatim>\<open>rows\<close> joined by newlines: the header, then for each course in turn
  one row for each of its assignments in turn. Such a row is the id, the cleaned course
  name with every comma replaced by a space, the assignment name with every comma
  replaced by a space, and the due date, with a comma between them: it holds exactly
  three commas. When no row holds a newline, the lines of the output are these rows.
\<close>

theorem csv_rows_three_commas:
  assumes "csv_rows fromiso courses abc = Inr rows"
      and "\<forall>c\<in>set courses. \<exists>i. subscript c ''id'' = Inr (JInt i)"
  shows "render_csv fromiso title courses abc = Inr (join [CHR 0x0A] rows) \<and>
         (\<exists>blocks. rows = csv_header # concat blocks \<and>
                   list_all2 (csv_block_ok fromiso abc) courses blocks) \<and>
         (\<forall>row\<in>set (tl rows). count_list row CHR '','' = 3) \<and>
         ((\<forall>row\<in>set rows. CHR 0x0A \<notin> set row) \<longrightarrow>
            split_on CHR 0x0A (join [CHR 0x0A] rows) = rows)"
proof -
  from assms(1) obtain blocks where
    b: "try_map (csv_course fromiso abc) courses = Inr blocks" and
    r: "rows = csv_header # concat blocks"
    by (auto simp: csv_rows_def split: sum.splits)
  have shape: "list_all2 (csv_block_ok fromiso abc) courses blocks"
    using try_map_all2 [OF b]
  proof (rule list.rel_mono_strong)
    fix c blk
    assume "c \<in> set courses" "blk \<in> set blocks" "csv_course fromiso abc c = Inr blk"
    moreover from this assms(2) obtain i where "subscript c ''id'' = Inr (JInt i)" by auto
    ultimately show "csv_block_ok fromiso abc c blk" by (intro csv_course_shape)
  qed
  have three: "count_list row CHR '','' = 3" if "row \<in> set (concat blocks)" for row
  proof -
    from that obtain blk where blk: "blk \<in> set blocks" "row \<in> set blk" by auto
    from try_map_all [OF b blk(1)] obtain c where
      c: "c \<in> set courses" "csv_course fromiso abc c = Inr blk" by auto
    from assms(2) c(1) obtain i where "subscript c ''id'' = Inr (JInt i)" by auto
    from csv_course_commas [OF c(2) this blk(2)] show ?thesis .
  qed
  have lines: "split_on CHR 0x0A (join [CHR 0x0A] rows) = rows"
    if "\<forall>row\<in>set rows. CHR 0x0A \<notin> set row"
    using that r by (intro split_join) simp_all
  show ?thesis
    using assms(1) shape three lines by (auto simp: render_csv_def r)
qed

theorem csv_rows_three_commas_witness:
  "render_csv ex_iso ''T'' [JObj [(''id'', JInt 1), (''name'', JStr ''Intro, to X (Spring 2025)'')]]
     [JInt 1 \<mapsto> [ex_assignment ''HW, 1'' (JStr ''2025-03-01T00:00:00Z'')]] =
   Inr (join [CHR 0x0A] [csv_header, ''1,Intro  to X,HW  1,2025-03-01'']) \<and>
   count_list ''1,Intro  to X,HW  1,2025-03-01'' CHR '','' = 3 \<and>
   split_on CHR 0x0A (join [CHR 0x0A] [csv_header, ''1,Intro  to X,HW  1,2025-03-01'']) =
     [csv_header, ''1,Intro  to X,HW  1,2025-03-01'']"
proof -
  let ?cs = "[JObj [(''id'', JInt 1), (''name'', JStr ''Intro, to X (Spring 2025)'')]]"
  let ?abc = "[JInt 1 \<mapsto> [ex_assignment ''HW, 1'' (JStr ''2025-03-01T00:00:00Z'')]]"
  have h: "ex_iso ''2025-03-01T00:00:00+00:00'' = Some (2025, 3, 1, 0, 0, 0, 0)"
    by (simp add: ex_iso_def)
  have rows: "csv_rows ex_iso ?cs ?abc = Inr [csv_header, ''1,Intro  to X,HW  1,2025-03-01'']"
    by (simp add: csv_rows_def csv_course_def ex_clean2 format_id_1 str_int_1 assignments_for_def
        csv_row_def due_str_def assignment_name_def strip_ex parse_iso8601_def h date_ex
        ex_assignment_def)
  have ids: "\<forall>c\<in>set ?cs. \<exists>i. subscript c ''id'' = Inr (JInt i)" by simp
  have nl: "\<forall>row\<in>set [csv_header, ''1,Intro  to X,HW  1,2025-03-01'']. CHR 0x0A \<notin> set row"
    by (simp add: csv_header_def)
  from csv_rows_three_commas [OF rows ids, of "''T''"] nl show ?thesis by simp
qed

lemma ex_clean3: "clean_course_name (JStr ''A'') = Inr ''A''"
  by code_simp

lemma strip_ex2: "strip ''HW'' = ''HW''" "strip [CHR ''H'', CHR 0x0A, CHR ''W''] = [CHR ''H'', CHR 0x0A, CHR ''W'']"
  by (simp_all add: strip_def is_space_def)

text \<open>
  Claim C10 as stated fails. A course id that is a string with a comma goes into the row
  as it is, and the row holds four commas; a newline inside an assignment name is kept,
  and the row makes two lines of the output, with two commas and one.
\<close>

theorem csv_rows_commas_counterexample:
  "render_csv ex_iso ''T'' [JObj [(''id'', JStr ''9,9''), (''name'', JStr ''A'')]]
     [JStr ''9,9'' \<mapsto> [ex_assignment ''HW'' JNull]] =
   Inr (join [CHR 0x0A] [csv_header, ''9,9,A,HW,No due date'']) \<and>
   count_list ''9,9,A,HW,No due date'' CHR '','' = 4 \<and>
   render_csv ex_iso ''T'' [JObj [(''id'', JInt 1), (''name'', JStr ''A'')]]
     [JInt 1 \<mapsto> [ex_assignment [CHR ''H'', CHR 0x0A, CHR ''W''] JNull]] =
   Inr (join [CHR 0x0A] [csv_header, ''1,A,H'', ''W,No due date'']) \<and>
   count_list ''1,A,H'' CHR '','' = 2 \<and> count_list ''W,No due date'' CHR '','' = 1"
  by (simp add: render_csv_def csv_rows_def csv_course_def ex_clean3 format_id_def small_not_long str_int_1 assignments_for_def
      csv_row_def due_str_def assignment_name_def strip_ex2 parse_iso8601_def date_none
      ex_assignment_def)

section \<open>Properties of the normalization of course names\<close>

lemma re_sub_no_match:
  "(\<And>n. re_match r (drop n s) = None) \<Longrightarrow> re_sub r repl s = s"
proof (induction s)
  case Nil
  from Nil [of 0] show ?case by (subst re_sub.simps) simp
next
  case (Cons c cs)
  have "re_match r (drop n cs) = None" for n using Cons.prems [of "Suc n"] by simp
  then have "re_sub r repl cs = cs" by (rule Cons.IH)
  with Cons.prems [of 0] show ?case by (subst re_sub.simps) simp
qed

lemma tails_while_set: "t \<in> set (tails_while p s) \<Longrightarrow> set t \<subseteq> set s"
  by (induction s) (auto split: if_splits)

lemma ends_chr_absent: "x \<notin> set s \<Longrightarrow> ends (Seq (chr x) r) s = []"
  by (cases s) (auto simp: chr_def)

lemma ends_star_chr_absent:
  assumes "x \<notin> set s"
  shows "ends (Seq (Star p) (Seq (chr x) r)) s = []"
proof -
  have "ends (Seq (chr x) r) t = []" if "t \<in> set (tails_while p s)" for t
    using tails_while_set [OF that] assms by (intro ends_chr_absent) auto
  then show ?thesis by (simp add: concat_eq_Nil_conv)
qed

lemma year_no_match: "CHR ''('' \<notin> set s \<Longrightarrow> re_match year_suffix_regex s = None"
  by (simp add: re_match_def year_suffix_regex_def seqs_def ends_star_chr_absent del: ends.simps)

lemma season_no_match: "CHR ''('' \<notin> set s \<Longrightarrow> re_match season_suffix_regex s = None"
  by (simp add: re_match_def season_suffix_regex_def seqs_def ends_star_chr_absent del: ends.simps)

lemma section_no_match: "CHR ''-'' \<notin> set s \<Longrightarrow> re_match section_regex s = None"
  by (simp add: re_match_def section_regex_def seqs_def ends_chr_absent del: ends.simps)

lemma absent_drop: "x \<notin> set s \<Longrightarrow> x \<notin> set (drop n s)"
  by (auto dest: in_set_dropD)

lemma spaces_match_iff:
  "re_match spaces_regex s \<noteq> None \<longleftrightarrow> (\<exists>a b cs. s = a # b # cs \<and> is_space a \<and> is_space b)"
proof -
  have ne: "tails_while p t \<noteq> []" for p t by (cases t) auto
  show ?thesis
    by (cases s; cases "tl s") (auto simp: re_match_def spaces_regex_def seqs_def ne split: list.splits)
qed

lemma tails_while_ne: "tails_while p s \<noteq> []"
  by (cases s) auto

lemma last_tails_while: "last (tails_while p s) = dropWhile p s"
  by (induction s) (auto simp: tails_while_ne)

lemma ends_Eps_all: "concat (map (ends Eps) xs) = xs"
  by (induction xs) auto

lemma spaces_match:
  "is_space a \<Longrightarrow> is_space b \<Longrightarrow>
   re_match spaces_regex (a # b # cs) = Some (dropWhile is_space cs)"
proof -
  assume "is_space a" "is_space b"
  then have "ends spaces_regex (a # b # cs) = rev (tails_while is_space cs)"
    by (simp add: spaces_regex_def seqs_def ends_Eps_all)
  moreover have "hd (rev (tails_while is_space cs)) = dropWhile is_space cs"
    by (simp add: hd_rev last_tails_while)
  ultimately show ?thesis
    using tails_while_ne [of is_space cs]
    by (cases "rev (tails_while is_space cs)") (auto simp: re_match_def)
qed

lemma collapse_match:
  assumes "is_space a" "is_space b"
  shows "re_sub spaces_regex repl (a # b # cs) =
         repl @ re_sub spaces_regex repl (dropWhile is_space cs)"
proof -
  have "length (dropWhile is_space cs) < length (a # b # cs)"
    using length_dropWhile_le [of is_space cs] by simp
  then show ?thesis
    by (subst re_sub.simps) (simp add: spaces_match [OF assms])
qed

lemma collapse_no_match:
  "re_match spaces_regex (c # cs) = None \<Longrightarrow>
   re_sub spaces_regex repl (c # cs) = c # re_sub spaces_regex repl cs"
  by (subst re_sub.simps) simp

lemma collapse_nil: "re_sub spaces_regex repl [] = []"
proof -
  have "re_match spaces_regex [] = None" using spaces_match_iff [of "[]"] by simp
  then show ?thesis by (subst re_sub.simps) simp
qed

lemma collapse_head:
  "\<not> is_space d \<Longrightarrow> re_sub spaces_regex repl (d # ds) = d # re_sub spaces_regex repl ds"
proof -
  assume "\<not> is_space d"
  then have "re_match spaces_regex (d # ds) = None"
    using spaces_match_iff [of "d # ds"] by auto
  then show ?thesis by (rule collapse_no_match)
qed

lemma nds_cons:
  "no_double_space xs \<Longrightarrow> xs = [] \<or> \<not> is_space c \<or> \<not> is_space (hd xs) \<Longrightarrow>
   no_double_space (c # xs)"
  by (cases xs) auto

lemma space_is_space: "is_space CHR '' ''"
  by (simp add: is_space_def)

lemma collapse_nds: "no_double_space (re_sub spaces_regex '' '' s)"
proof (induction s rule: length_induct)
  case (1 s)
  show ?case
  proof (cases "re_match spaces_regex s")
    case None
    show ?thesis
    proof (cases s)
      case Nil
      then show ?thesis by (simp add: collapse_nil)
    next
      case (Cons c cs)
      have ih: "no_double_space (re_sub spaces_regex '' '' cs)" using 1 Cons by simp
      have st: "re_sub spaces_regex '' '' s = c # re_sub spaces_regex '' '' cs"
        using None Cons by (simp add: collapse_no_match)
      have "re_sub spaces_regex '' '' cs = [] \<or> \<not> is_space c \<or>
            \<not> is_space (hd (re_sub spaces_regex '' '' cs))"
      proof (cases cs)
        case Nil
        then show ?thesis by (simp add: collapse_nil)
      next
        case (Cons d ds)
        show ?thesis
        proof (cases "is_space d")
          case True
          with None \<open>s = c # cs\<close> Cons spaces_match_iff [of s] have "\<not> is_space c" by auto
          then show ?thesis by simp
        next
          case False
          then show ?thesis using Cons by (simp add: collapse_head)
        qed
      qed
      with ih show ?thesis unfolding st by (rule nds_cons)
    qed
  next
    case (Some t)
    then obtain a b cs where s: "s = a # b # cs" and sp: "is_space a" "is_space b"
      using spaces_match_iff [of s] by auto
    define t' where "t' = dropWhile is_space cs"
    have st: "re_sub spaces_regex '' '' s = CHR '' '' # re_sub spaces_regex '' '' t'"
      unfolding s t'_def using collapse_match [OF sp, of "'' ''" cs] by simp
    have "length t' < length s" using length_dropWhile_le [of is_space cs] s by (simp add: t'_def)
    with 1 have ih: "no_double_space (re_sub spaces_regex '' '' t')" by simp
    have "re_sub spaces_regex '' '' t' = [] \<or> \<not> is_space CHR '' '' \<or>
          \<not> is_space (hd (re_sub spaces_regex '' '' t'))"
    proof (cases t')
      case Nil
      then show ?thesis by (simp add: collapse_nil)
    next
      case (Cons d ds)
      then have "\<not> is_space d" using hd_dropWhile [of is_space cs] by (auto simp: t'_def)
      then show ?thesis using Cons by (simp add: collapse_head)
    qed
    with ih show ?thesis unfolding st by (rule nds_cons)
  qed
qed

lemma nds_tl: "no_double_space (c # cs) \<Longrightarrow> no_double_space cs"
  by (cases cs) auto

lemma nds_drop: "no_double_space s \<Longrightarrow> no_double_space (drop n s)"
proof (induction n arbitrary: s)
  case 0
  then show ?case by simp
next
  case (Suc n)
  then show ?case by (cases s) (auto dest: nds_tl)
qed

lemma nds_take: "no_double_space s \<Longrightarrow> no_double_space (take n s)"
proof (induction s arbitrary: n rule: no_double_space.induct)
  case 1
  then show ?case by simp
next
  case (2 c)
  then show ?case by (cases n) auto
next
  case (3 a b cs)
  show ?case
  proof (cases n)
    case 0
    then show ?thesis by simp
  next
    case (Suc m)
    from 3 have "no_double_space (take m (b # cs))" by simp
    with 3(2) Suc show ?thesis by (cases m) auto
  qed
qed

lemma strip_take_drop:
  "\<exists>i j. strip s = take i (drop j s)"
proof -
  define z where "z = dropWhile is_space s"
  define n where "n = length (takeWhile is_space (rev z))"
  have "dropWhile is_space (rev z) = drop n (rev z)"
    unfolding n_def by (rule dropWhile_eq_drop)
  then have "strip s = rev (drop n (rev z))" by (simp add: strip_def z_def)
  also have "\<dots> = take (length z - n) z" by (simp add: rev_drop)
  also have "z = drop (length (takeWhile is_space s)) s"
    unfolding z_def by (rule dropWhile_eq_drop)
  finally show ?thesis by blast
qed

lemma nds_strip:
  assumes "no_double_space s"
  shows "no_double_space (strip s)"
proof -
  obtain i j where "strip s = take i (drop j s)" using strip_take_drop by blast
  then show ?thesis using assms by (simp add: nds_take nds_drop)
qed

lemma nds_collapse_id:
  assumes "no_double_space s"
  shows "re_sub spaces_regex repl s = s"
proof (rule re_sub_no_match)
  fix n
  have "no_double_space (drop n s)" using assms by (rule nds_drop)
  then show "re_match spaces_regex (drop n s) = None"
    using spaces_match_iff [of "drop n s"] by (cases "re_match spaces_regex (drop n s)") auto
qed

lemma strip_fixed:
  assumes "t \<noteq> []" "\<not> is_space (hd t)" "\<not> is_space (last t)"
  shows "strip t = t"
proof -
  have 1: "dropWhile is_space t = t" using assms(1,2) by (cases t) auto
  have "rev t \<noteq> []" "\<not> is_space (hd (rev t))" using assms(1,3) by (simp_all add: hd_rev)
  then have 2: "dropWhile is_space (rev t) = rev t" by (cases "rev t") auto
  show ?thesis by (simp add: strip_def 1 2)
qed

lemma strip_ends:
  assumes "strip y \<noteq> []"
  shows "\<not> is_space (hd (strip y)) \<and> \<not> is_space (last (strip y))"
proof -
  define z where "z = dropWhile is_space y"
  define w where "w = dropWhile is_space (rev z)"
  have s: "strip y = rev w" by (simp add: strip_def w_def z_def)
  have wne: "w \<noteq> []" using assms s by simp
  have zne: "z \<noteq> []"
  proof
    assume "z = []"
    then have "w = []" by (simp add: w_def)
    with wne show False by simp
  qed
  have hw: "\<not> is_space (hd w)" using wne unfolding w_def by (rule hd_dropWhile)
  have hz: "\<not> is_space (hd z)" using zne unfolding z_def by (rule hd_dropWhile)
  define n where "n = length (takeWhile is_space (rev z))"
  have wd: "w = drop n (rev z)" unfolding w_def n_def by (rule dropWhile_eq_drop)
  have "n < length (rev z)"
  proof (rule ccontr)
    assume "\<not> n < length (rev z)"
    then have "drop n (rev z) = []" by simp
    with wd wne show False by simp
  qed
  then have "last w = last (rev z)" unfolding wd by (rule last_drop)
  then have "last w = hd z" using zne by (simp add: last_rev)
  with hw hz wne show ?thesis unfolding s by (simp add: hd_rev last_rev)
qed

lemma strip_idem: "strip (strip y) = strip y"
proof (cases "strip y = []")
  case True
  show ?thesis unfolding True by (simp add: strip_def)
next
  case False
  with strip_ends [OF False] show ?thesis by (intro strip_fixed) simp_all
qed

text \<open>A special case: a cleaned name that is not empty and holds neither an opening
  parenthesis nor a hyphen is left as it is.\<close>

lemma clean_course_name_idempotent_plain:
  assumes "clean_course_name (JStr s) = Inr t"
      and "t \<noteq> []" and "CHR ''('' \<notin> set t" and "CHR ''-'' \<notin> set t"
  shows "clean_course_name (JStr t) = Inr t"
proof -
  have y: "re_sub year_suffix_regex [] t = t"
    by (rule re_sub_no_match) (simp add: year_no_match absent_drop assms(3))
  have e: "re_sub season_suffix_regex [] t = t"
    by (rule re_sub_no_match) (simp add: season_no_match absent_drop assms(3))
  have c: "re_sub section_regex [] t = t"
    by (rule re_sub_no_match) (simp add: section_no_match absent_drop assms(4))
  have "no_double_space t \<and> strip t = t"
  proof (cases "s = []")
    case True
    with assms(1) have "t = ''Untitled''" by (simp add: clean_course_name_def)
    then show ?thesis by (simp add: strip_def is_space_def)
  next
    case False
    with assms(1) have t: "t = clean_str s" by (simp add: clean_course_name_def)
    then obtain x where x: "t = strip (re_sub spaces_regex '' '' x)"
      by (auto simp: clean_str_def)
    show ?thesis unfolding x by (simp add: strip_idem nds_strip collapse_nds)
  qed
  then have "clean_str t = t"
    by (simp add: clean_str_def y e c nds_collapse_id)
  with assms(2) show ?thesis by (simp add: clean_course_name_def)
qed

lemma re_search_none: "re_search r t = None \<Longrightarrow> re_match r (drop n t) = None"
proof (induction t arbitrary: n)
  case Nil
  then show ?case by (simp split: option.splits)
next
  case (Cons c cs)
  from Cons.prems have m: "re_match r (c # cs) = None" and s: "re_search r cs = None"
    by (simp_all split: option.splits)
  show ?case
  proof (cases n)
    case 0
    with m show ?thesis by simp
  next
    case (Suc k)
    with Cons.IH [OF s, of k] show ?thesis by simp
  qed
qed

text \<open>
  Claim C6, as amended. Whenever the cleaned name is not empty and none of the three
  patterns for annotations and section suffixes matches it at any position, cleaning it
  again changes nothing: on these names \<^verbatim>\<open>clean_course_name\<close> applied twice gives what it
  gives applied once.
\<close>

theorem clean_course_name_idempotent_when_unmatched:
  assumes "clean_course_name (JStr s) = Inr t"
      and "t \<noteq> []"
      and "re_search year_suffix_regex t = None"
      and "re_search season_suffix_regex t = None"
      and "re_search section_regex t = None"
  shows "clean_course_name (JStr t) = Inr t"
proof -
  have y: "re_sub year_suffix_regex [] t = t"
    by (rule re_sub_no_match) (rule re_search_none [OF assms(3)])
  have e: "re_sub season_suffix_regex [] t = t"
    by (rule re_sub_no_match) (rule re_search_none [OF assms(4)])
  have c: "re_sub section_regex [] t = t"
    by (rule re_sub_no_match) (rule re_search_none [OF assms(5)])
  have "no_double_space t \<and> strip t = t"
  proof (cases "s = []")
    case True
    with assms(1) have "t = ''Untitled''" by (simp add: clean_course_name_def)
    then show ?thesis by (simp add: strip_def is_space_def)
  next
    case False
    with assms(1) have t: "t = clean_str s" by (simp add: clean_course_name_def)
    then obtain x where x: "t = strip (re_sub spaces_regex '' '' x)"
      by (auto simp: clean_str_def)
    show ?thesis unfolding x by (simp add: strip_idem nds_strip collapse_nds)
  qed
  then have "clean_str t = t"
    by (simp add: clean_str_def y e c nds_collapse_id)
  with assms(2) show ?thesis by (simp add: clean_course_name_def)
qed

theorem clean_course_name_idempotent_when_unmatched_witness:
  "clean_course_name (JStr ''Pre-Calculus-01-30797   (Honors)  (Fall 2024) '') =
     Inr ''Pre-Calculus (Honors)'' \<and>
   clean_course_name (JStr ''Pre-Calculus (Honors)'') = Inr ''Pre-Calculus (Honors)''"
proof -
  have a: "clean_course_name (JStr ''Pre-Calculus-01-30797   (Honors)  (Fall 2024) '') =
      Inr ''Pre-Calculus (Honors)''"
    by code_simp
  have y: "re_search year_suffix_regex ''Pre-Calculus (Honors)'' = None" by code_simp
  have e: "re_search season_suffix_regex ''Pre-Calculus (Honors)'' = None" by code_simp
  have c: "re_search section_regex ''Pre-Calculus (Honors)'' = None" by code_simp
  from clean_course_name_idempotent_when_unmatched [OF a _ y e c] a show ?thesis by simp
qed

text \<open>
  Claim C6 as stated fails. A name of one blank is cleaned to the empty string, and the
  empty string to \<^verbatim>\<open>Untitled\<close>; of two annotations that follow each other only the last is
  removed, and the next application removes the other; and the removal of one section
  suffix can leave a text that is a section suffix again.
\<close>

theorem clean_course_name_not_idempotent_counterexample:
  "clean_course_name (JStr '' '') = Inr [] \<and>
   clean_course_name (JStr []) = Inr ''Untitled'' \<and>
   clean_course_name (JStr ''A (X 2025) (Y 2024)'') = Inr ''A (X 2025)'' \<and>
   clean_course_name (JStr ''A (X 2025)'') = Inr ''A'' \<and>
   clean_course_name (JStr ''X-12-01-99999-12345'') = Inr ''X-12-12345'' \<and>
   clean_course_name (JStr ''X-12-12345'') = Inr ''X''"
  by code_simp

end
